theory Spec2Isabelle
  imports Main "HOL-Library.Word" "HOL-Library.Multiset" "HOL-Library.AList"
    "HOL-Library.List_Lexorder" "HOL-Library.Char_ord"
begin

section \<open>Keys, records and the comparer\<close>

text \<open>
  User keys, suffixes and values are Go byte slices. An internal key is a user key with
  a trailer; the trailer packs a sequence number and a kind. The packing itself lives in
  \<^verbatim>\<open>internal/base\<close>; here the trailer is the pair of what it packs, and
  \<^verbatim>\<open>MakeTrailer\<close>, \<^verbatim>\<open>SeqNum()\<close>, \<^verbatim>\<open>Kind()\<close>, \<^verbatim>\<open>SetSeqNum\<close> and \<^verbatim>\<open>SetKind\<close> read and
  write its two components.
\<close>

type_synonym bytes = string

datatype InternalKeyKind =
    InternalKeyKindDelete
  | InternalKeyKindSet
  | InternalKeyKindMerge
  | InternalKeyKindSingleDelete
  | InternalKeyKindRangeDelete
  | InternalKeyKindRangeKeyDelete
  | InternalKeyKindRangeKeyUnset
  | InternalKeyKindRangeKeySet
  | InternalKeyKindDeleteSized

type_synonym SeqNum = "64 word"

type_synonym Trailer = "SeqNum \<times> InternalKeyKind"

definition SeqNumZero :: SeqNum where
  "SeqNumZero = 0"

definition SeqNumMax :: SeqNum where
  "SeqNumMax = 72057594037927935"

definition MakeTrailer :: "SeqNum \<Rightarrow> InternalKeyKind \<Rightarrow> Trailer" where
  "MakeTrailer seq kind = (seq, kind)"

record InternalKey =
  UserKey :: bytes
  Trailer :: Trailer

definition SeqNum :: "InternalKey \<Rightarrow> SeqNum" where
  "SeqNum k = fst (Trailer k)"

definition Kind :: "InternalKey \<Rightarrow> InternalKeyKind" where
  "Kind k = snd (Trailer k)"

definition SetSeqNum :: "InternalKey \<Rightarrow> SeqNum \<Rightarrow> InternalKey" where
  "SetSeqNum k seq = k\<lparr>Trailer := MakeTrailer seq (Kind k)\<rparr>"

definition SetKind :: "InternalKey \<Rightarrow> InternalKeyKind \<Rightarrow> InternalKey" where
  "SetKind k kind = k\<lparr>Trailer := MakeTrailer (SeqNum k) kind\<rparr>"

text \<open>
  The comparer of \<^verbatim>\<open>t.opts.Comparer\<close>: the three functions the build calls. Its
  implementation is the caller's choice, so it is a parameter. \<^verbatim>\<open>Split\<close> returns the
  length of the prefix of a key, an index within the key.
\<close>

record Comparer =
  Compare :: "bytes \<Rightarrow> bytes \<Rightarrow> int"
  Equal :: "bytes \<Rightarrow> bytes \<Rightarrow> bool"
  Split :: "bytes \<Rightarrow> nat"

text \<open>One key of a range-key span (\<^verbatim>\<open>keyspan.Key\<close>) and a span (\<^verbatim>\<open>keyspan.Span\<close>).\<close>

record Key =
  KeyTrailer :: Trailer
  Suffix :: bytes
  Value :: bytes

definition KeyKind :: "Key \<Rightarrow> InternalKeyKind" where
  "KeyKind k = snd (KeyTrailer k)"

definition KeySeqNum :: "Key \<Rightarrow> SeqNum" where
  "KeySeqNum k = fst (KeyTrailer k)"

record Span =
  Start :: bytes
  End :: bytes
  Keys :: "Key list"

section \<open>The collaborators of the ingestion build\<close>

text \<open>
  A Go \<^verbatim>\<open>error\<close> is an opaque value. A lazy value is what \<^verbatim>\<open>value.Value(nil)\<close> returns
  when it is materialised: the bytes or an error; the zero \<^verbatim>\<open>LazyValue{}\<close> materialises
  to no bytes.
\<close>

datatype error = Error string

type_synonym LazyValue = "error + bytes"

definition LazyValue_zero :: LazyValue where
  "LazyValue_zero = Inr []"

text \<open>
  The point iterator yields its records through \<^verbatim>\<open>First\<close>/\<^verbatim>\<open>Next\<close> until a nil key; a
  fragment iterator yields spans until a nil span, together with an error or nil. Each
  has the result of its \<^verbatim>\<open>Close\<close>. A nil fragment iterator is \<open>None\<close>.
\<close>

record PointIterator =
  pItems :: "(InternalKey \<times> LazyValue) list"
  pClose :: "error option"

record FragmentIterator =
  fSpans :: "Span list"
  fErr :: "error option"
  fClose :: "error option"

datatype IterId = PointIter | RangeDelIter | RangeKeyIter

text \<open>
  The sstable writer is a collaborator that is not part of these sources. It is modelled
  by what it has accepted so far, and by an oracle that decides, from the operation and
  the writer's contents, whether the operation fails: any call may fail at any time.
  \<^verbatim>\<open>rangekey.Encode(&collapsed, w.AddRangeKey)\<close> is one operation on the span it is given.
\<close>

record Writer =
  points :: "(InternalKey \<times> bytes) list"
  rangeDels :: "(bytes \<times> bytes) list"
  rangeKeys :: "Span list"
  finished :: bool

datatype WriterOp =
    OpAdd InternalKey bytes
  | OpDeleteRange bytes bytes
  | OpEncode Span
  | OpClose
  | OpMetadata

type_synonym Oracle = "WriterOp \<Rightarrow> Writer \<Rightarrow> error option"

definition NewWriter :: Writer where
  "NewWriter = \<lparr>points = [], rangeDels = [], rangeKeys = [], finished = False\<rparr>"

definition Writer_Add :: "Oracle \<Rightarrow> Writer \<Rightarrow> InternalKey \<Rightarrow> bytes \<Rightarrow> error + Writer" where
  "Writer_Add fails w k v =
     (case fails (OpAdd k v) w of
        Some e \<Rightarrow> Inl e
      | None \<Rightarrow> Inr (w\<lparr>points := points w @ [(k, v)]\<rparr>))"

definition Writer_DeleteRange :: "Oracle \<Rightarrow> Writer \<Rightarrow> bytes \<Rightarrow> bytes \<Rightarrow> error + Writer" where
  "Writer_DeleteRange fails w s e =
     (case fails (OpDeleteRange s e) w of
        Some err \<Rightarrow> Inl err
      | None \<Rightarrow> Inr (w\<lparr>rangeDels := rangeDels w @ [(s, e)]\<rparr>))"

definition rangekey_Encode :: "Oracle \<Rightarrow> Writer \<Rightarrow> Span \<Rightarrow> error + Writer" where
  "rangekey_Encode fails w sp =
     (case fails (OpEncode sp) w of
        Some err \<Rightarrow> Inl err
      | None \<Rightarrow> Inr (w\<lparr>rangeKeys := rangeKeys w @ [sp]\<rparr>))"

definition Writer_Close :: "Oracle \<Rightarrow> Writer \<Rightarrow> error + Writer" where
  "Writer_Close fails w =
     (case fails OpClose w of
        Some err \<Rightarrow> Inl err
      | None \<Rightarrow> Inr (w\<lparr>finished := True\<rparr>))"

definition Writer_Metadata :: "Oracle \<Rightarrow> Writer \<Rightarrow> error + Writer" where
  "Writer_Metadata fails w =
     (case fails OpMetadata w of
        Some err \<Rightarrow> Inl err
      | None \<Rightarrow> Inr w)"

text \<open>
  \<^verbatim>\<open>sstable.SyntheticPrefix\<close> and \<^verbatim>\<open>sstable.SyntheticSuffix\<close> are declared outside these
  sources. A synthetic prefix is what the function uses of it: whether it is set, and
  what \<^verbatim>\<open>Apply\<close> makes of a key. A synthetic suffix is whether it is set, and the bytes
  that \<^verbatim>\<open>append\<close> puts after the prefix of a key.
\<close>

record SyntheticPrefix =
  prefixIsSet :: bool
  prefixApply :: "bytes \<Rightarrow> bytes"

record SyntheticSuffix =
  suffixIsSet :: bool
  suffixBytes :: bytes

text \<open>
  What \<^verbatim>\<open>writeSSTForIngestion\<close> reads and does not change: its own arguments, the
  comparer, and the parts of other packages it uses. \<^verbatim>\<open>FormatDeleteSizedAndObsolete\<close>
  (a constant of the format versions), \<^verbatim>\<open>rangekey.Coalesce\<close> and the numeric code of a
  kind inside a trailer are declared outside these sources and are parameters. The
  options of the writer (\<^verbatim>\<open>writerOpts\<close>) choose the format of the file and are left to
  the writer.
\<close>

record Env =
  comparer :: Comparer
  uniquePrefixes :: bool
  syntheticSuffix :: SyntheticSuffix
  syntheticPrefix :: SyntheticPrefix
  targetFMV :: nat
  FormatDeleteSizedAndObsolete :: nat
  Coalesce :: "(bytes \<Rightarrow> bytes \<Rightarrow> int) \<Rightarrow> (bytes \<Rightarrow> bytes \<Rightarrow> bool) \<Rightarrow> Key list \<Rightarrow> Key list"
  kindCode :: "InternalKeyKind \<Rightarrow> nat"
  fails :: Oracle

section \<open>writeSSTForIngestion\<close>

text \<open>
  The state the function threads: the writer, the three close helpers
  (\<^verbatim>\<open>base.CloseHelper\<close>: \<open>held\<close> is true while the helper still has its closer, and a
  helper made from a nil iterator never has one), and two observations: the calls of
  \<^verbatim>\<open>Close\<close> that reached an iterator, in call order, and every non-nil error a callee
  returned, in the order they were returned.
\<close>

record BuildState =
  writer :: Writer
  held :: "IterId \<Rightarrow> bool"
  closes :: "IterId list"
  errors :: "error list"

definition observe :: "error option \<Rightarrow> BuildState \<Rightarrow> BuildState" where
  "observe r s = (case r of None \<Rightarrow> s | Some e \<Rightarrow> s\<lparr>errors := errors s @ [e]\<rparr>)"

text \<open>
  Modelled from the spec: \<^verbatim>\<open>base.CloseHelper\<close>, which is not part of these sources. The
  function calls \<^verbatim>\<open>Close\<close> on each helper twice on its successful path, once in the body
  and once deferred, and also makes a helper of an iterator that may be nil; the spec has
  each iterator "closed on every exit path". So the first call of a helper closes its
  iterator and returns the iterator's error; every later call, and every call on a
  helper of a nil iterator, does nothing and returns nil.
\<close>

definition CloseHelper_Close :: "IterId \<Rightarrow> error option \<Rightarrow> BuildState \<Rightarrow> error option \<times> BuildState" where
  "CloseHelper_Close i r s =
     (if held s i
      then (r, observe r (s\<lparr>held := (held s)(i := False), closes := closes s @ [i]\<rparr>))
      else (None, s))"

text \<open>\<^verbatim>\<open>outputKey\<close> (lines 49 to 61). \<^verbatim>\<open>Split\<close> returns an index within the key, so
  \<^verbatim>\<open>key[:n:n]\<close> is the first \<open>n\<close> bytes of the key.\<close>

definition outputKey :: "Env \<Rightarrow> bytes \<Rightarrow> bytes" where
  "outputKey E key =
     (if \<not> prefixIsSet (syntheticPrefix E) \<and> \<not> suffixIsSet (syntheticSuffix E) then key
      else
        let key1 = (if prefixIsSet (syntheticPrefix E) then prefixApply (syntheticPrefix E) key else key)
        in if suffixIsSet (syntheticSuffix E)
           then take (Split (comparer E) key1) key1 @ suffixBytes (syntheticSuffix E)
           else key1)"

text \<open>
  \<^verbatim>\<open>lastUserKey\<close> is a slice that starts nil; \<open>None\<close> is nil.
  \<^verbatim>\<open>append(lastUserKey[:0], key.UserKey...)\<close> returns its first argument when nothing is
  appended, so a nil \<^verbatim>\<open>lastUserKey\<close> stays nil after an empty user key; in every other
  case the result is a non-nil copy of the user key.
\<close>

definition append_reset :: "bytes option \<Rightarrow> bytes \<Rightarrow> bytes option" where
  "append_reset lastUserKey key =
     (case lastUserKey of
        None \<Rightarrow> (if key = [] then None else Some key)
      | Some _ \<Rightarrow> Some key)"

text \<open>The test of lines 66 to 76: is this record a duplicate of the last one written?\<close>

definition isDuplicate :: "Env \<Rightarrow> bytes option \<Rightarrow> bytes \<Rightarrow> bool" where
  "isDuplicate E lastUserKey userKey =
     (case lastUserKey of
        None \<Rightarrow> False
      | Some last0 \<Rightarrow>
          let lastK = (if uniquePrefixes E then take (Split (comparer E) last0) last0 else last0);
              thisK = (if uniquePrefixes E then take (Split (comparer E) userKey) userKey else userKey)
          in Equal (comparer E) lastK thisK)"

text \<open>What is done to a record that is not skipped, before it is added (lines 79 to 92).\<close>

definition translate :: "Env \<Rightarrow> InternalKey \<times> LazyValue \<Rightarrow> InternalKey \<times> LazyValue" where
  "translate E kv =
     (let key = SetSeqNum (fst kv) SeqNumZero
      in if targetFMV E < FormatDeleteSizedAndObsolete E \<and> Kind key = InternalKeyKindDeleteSized
         then (SetKind key InternalKeyKindDelete, LazyValue_zero)
         else (key, snd kv))"

fun pointLoop :: "Env \<Rightarrow> (InternalKey \<times> LazyValue) list \<Rightarrow> bytes option \<Rightarrow> BuildState
    \<Rightarrow> error option \<times> BuildState" where
  "pointLoop E [] lastUserKey s = (None, s)"
| "pointLoop E (kv # rest) lastUserKey s =
     (if isDuplicate E lastUserKey (UserKey (fst kv)) then pointLoop E rest lastUserKey s
      else
        let lastUserKey' = append_reset lastUserKey (UserKey (fst kv));
            (key, val) = translate E kv
        in case val of
             Inl err \<Rightarrow> (Some err, observe (Some err) s)
           | Inr valBytes \<Rightarrow>
               (case Writer_Add (fails E) (writer s) (key\<lparr>UserKey := outputKey E (UserKey key)\<rparr>) valBytes of
                  Inl err \<Rightarrow> (Some err, observe (Some err) s)
                | Inr w \<Rightarrow> pointLoop E rest lastUserKey' (s\<lparr>writer := w\<rparr>)))"

fun rangeDelLoop :: "Env \<Rightarrow> Span list \<Rightarrow> BuildState \<Rightarrow> error option \<times> BuildState" where
  "rangeDelLoop E [] s = (None, s)"
| "rangeDelLoop E (span # rest) s =
     (case Writer_DeleteRange (fails E) (writer s) (outputKey E (Start span)) (outputKey E (End span)) of
        Inl err \<Rightarrow> (Some err, observe (Some err) s)
      | Inr w \<Rightarrow> rangeDelLoop E rest (s\<lparr>writer := w\<rparr>))"

text \<open>
  Modelled from the spec: \<^verbatim>\<open>keyspan.SortKeysByTrailer\<close>, which is not part of these
  sources. The coalesced operations are "re-sorted by a canonical trailer order". A
  trailer is the number \<open>seq * 256 + code of the kind\<close>, and the canonical order of the
  keys of a span is by descending trailer; the sort is an insertion sort that keeps the
  order of keys with equal trailers.
\<close>

definition trailerNum :: "Env \<Rightarrow> Trailer \<Rightarrow> nat" where
  "trailerNum E t = unat (fst t) * 256 + kindCode E (snd t)"

fun insertKey :: "Env \<Rightarrow> Key \<Rightarrow> Key list \<Rightarrow> Key list" where
  "insertKey E k [] = [k]"
| "insertKey E k (x # xs) =
     (if trailerNum E (KeyTrailer x) \<le> trailerNum E (KeyTrailer k) then k # x # xs
      else x # insertKey E k xs)"

fun SortKeysByTrailer :: "Env \<Rightarrow> Key list \<Rightarrow> Key list" where
  "SortKeysByTrailer E [] = []"
| "SortKeysByTrailer E (k # ks) = insertKey E k (SortKeysByTrailer E ks)"

text \<open>Lines 128 to 139: the span that is handed to the encoder.\<close>

definition collapse :: "Env \<Rightarrow> Span \<Rightarrow> Span" where
  "collapse E span =
     (let coalesced = Coalesce E (Compare (comparer E)) (Equal (comparer E)) (Keys span);
          zeroed = map (\<lambda>k. k\<lparr>KeyTrailer := MakeTrailer 0 (KeyKind k)\<rparr>) coalesced
      in \<lparr>Start = outputKey E (Start span),
          End = outputKey E (End span),
          Keys = SortKeysByTrailer E zeroed\<rparr>)"

fun rangeKeyLoop :: "Env \<Rightarrow> Span list \<Rightarrow> BuildState \<Rightarrow> error option \<times> BuildState" where
  "rangeKeyLoop E [] s = (None, s)"
| "rangeKeyLoop E (span # rest) s =
     (case rangekey_Encode (fails E) (writer s) (collapse E span) of
        Inl err \<Rightarrow> (Some err, observe (Some err) s)
      | Inr w \<Rightarrow> rangeKeyLoop E rest (s\<lparr>writer := w\<rparr>))"

text \<open>Lines 101 to 114 and 116 to 150: a nil iterator is skipped; otherwise the loop,
  then the iterator's own error, then the explicit close.\<close>

definition rangeDelPhase :: "Env \<Rightarrow> FragmentIterator option \<Rightarrow> BuildState \<Rightarrow> error option \<times> BuildState" where
  "rangeDelPhase E it s =
     (case it of
        None \<Rightarrow> (None, s)
      | Some i \<Rightarrow>
          (case rangeDelLoop E (fSpans i) s of
             (Some err, s1) \<Rightarrow> (Some err, s1)
           | (None, s1) \<Rightarrow>
               (case fErr i of
                  Some err \<Rightarrow> (Some err, observe (Some err) s1)
                | None \<Rightarrow> CloseHelper_Close RangeDelIter (fClose i) s1)))"

definition rangeKeyPhase :: "Env \<Rightarrow> FragmentIterator option \<Rightarrow> BuildState \<Rightarrow> error option \<times> BuildState" where
  "rangeKeyPhase E it s =
     (case it of
        None \<Rightarrow> (None, s)
      | Some i \<Rightarrow>
          (case rangeKeyLoop E (fSpans i) s of
             (Some err, s1) \<Rightarrow> (Some err, s1)
           | (None, s1) \<Rightarrow>
               (case fErr i of
                  Some err \<Rightarrow> (Some err, observe (Some err) s1)
                | None \<Rightarrow> CloseHelper_Close RangeKeyIter (fClose i) s1)))"

text \<open>Lines 152 to 159.\<close>

definition finish :: "Env \<Rightarrow> BuildState \<Rightarrow> (error + Writer) \<times> BuildState" where
  "finish E s =
     (case Writer_Close (fails E) (writer s) of
        Inl err \<Rightarrow> (Inl err, observe (Some err) s)
      | Inr w \<Rightarrow>
          (case Writer_Metadata (fails E) w of
             Inl err \<Rightarrow> (Inl err, observe (Some err) (s\<lparr>writer := w\<rparr>))
           | Inr meta \<Rightarrow> (Inr meta, s\<lparr>writer := w\<rparr>)))"

text \<open>The body of the function, from the first loop to the last return.\<close>

definition body :: "Env \<Rightarrow> PointIterator \<Rightarrow> FragmentIterator option \<Rightarrow> FragmentIterator option
    \<Rightarrow> BuildState \<Rightarrow> (error + Writer) \<times> BuildState" where
  "body E pointIter rangeDelIter rangeKeyIter s0 =
     (case pointLoop E (pItems pointIter) None s0 of
        (Some err, s1) \<Rightarrow> (Inl err, s1)
      | (None, s1) \<Rightarrow>
          (case CloseHelper_Close PointIter (pClose pointIter) s1 of
             (Some err, s2) \<Rightarrow> (Inl err, s2)
           | (None, s2) \<Rightarrow>
               (case rangeDelPhase E rangeDelIter s2 of
                  (Some err, s3) \<Rightarrow> (Inl err, s3)
                | (None, s3) \<Rightarrow>
                    (case rangeKeyPhase E rangeKeyIter s3 of
                       (Some err, s4) \<Rightarrow> (Inl err, s4)
                     | (None, s4) \<Rightarrow> finish E s4))))"

definition fragClose :: "FragmentIterator option \<Rightarrow> error option" where
  "fragClose it = (case it of None \<Rightarrow> None | Some i \<Rightarrow> fClose i)"

definition initState :: "FragmentIterator option \<Rightarrow> FragmentIterator option \<Rightarrow> BuildState" where
  "initState rangeDelIter rangeKeyIter =
     \<lparr>writer = NewWriter,
      held = (\<lambda>i. case i of PointIter \<Rightarrow> True
                          | RangeDelIter \<Rightarrow> rangeDelIter \<noteq> None
                          | RangeKeyIter \<Rightarrow> rangeKeyIter \<noteq> None),
      closes = [],
      errors = []\<rparr>"

text \<open>
  The whole function. The three deferred calls of lines 43, 45 and 47 run when the body
  has returned, the last deferred first, and what they return is dropped.
\<close>

definition writeSSTForIngestion :: "Env \<Rightarrow> PointIterator \<Rightarrow> FragmentIterator option
    \<Rightarrow> FragmentIterator option \<Rightarrow> (error + Writer) \<times> BuildState" where
  "writeSSTForIngestion E pointIter rangeDelIter rangeKeyIter =
     (let (res, s) = body E pointIter rangeDelIter rangeKeyIter (initState rangeDelIter rangeKeyIter);
          s1 = snd (CloseHelper_Close RangeKeyIter (fragClose rangeKeyIter) s);
          s2 = snd (CloseHelper_Close RangeDelIter (fragClose rangeDelIter) s1);
          s3 = snd (CloseHelper_Close PointIter (pClose pointIter) s2)
      in (res, s3))"

text \<open>The records of a stream that the first loop does not skip.\<close>

fun survivors :: "Env \<Rightarrow> bytes option \<Rightarrow> (InternalKey \<times> LazyValue) list \<Rightarrow> (InternalKey \<times> LazyValue) list" where
  "survivors E lastUserKey [] = []"
| "survivors E lastUserKey (kv # rest) =
     (if isDuplicate E lastUserKey (UserKey (fst kv)) then survivors E lastUserKey rest
      else kv # survivors E (append_reset lastUserKey (UserKey (fst kv))) rest)"

section \<open>Notions used to state the properties of the build\<close>

text \<open>The iterators that are not nil, in the order point, range deletion, range key.\<close>

definition present :: "FragmentIterator option \<Rightarrow> FragmentIterator option \<Rightarrow> IterId list" where
  "present rangeDelIter rangeKeyIter =
     [PointIter] @ (if rangeDelIter \<noteq> None then [RangeDelIter] else [])
                 @ (if rangeKeyIter \<noteq> None then [RangeKeyIter] else [])"

definition opt_list :: "'a option \<Rightarrow> 'a list" where
  "opt_list r = (case r of None \<Rightarrow> [] | Some e \<Rightarrow> [e])"

text \<open>A step that closes nothing, and adds to the observed errors exactly the error it
  returns.\<close>

definition frame :: "BuildState \<Rightarrow> error option \<Rightarrow> BuildState \<Rightarrow> bool" where
  "frame s r s' = (held s' = held s \<and> closes s' = closes s \<and> errors s' = errors s @ opt_list r)"

text \<open>The first \<open>n\<close> of the present iterators have been closed, in order, and the helpers
  of the others still hold their closers.\<close>

definition closedUpTo :: "FragmentIterator option \<Rightarrow> FragmentIterator option \<Rightarrow> nat \<Rightarrow> BuildState \<Rightarrow> bool" where
  "closedUpTo rd rk n s =
     (closes s = take n (present rd rk) \<and> (\<forall>i. held s i = (i \<in> set (drop n (present rd rk)))))"

text \<open>The iterators the body of the function has closed itself when it returns, in the
  order of the calls; the deferred calls come after them.\<close>

definition closedByBody :: "Env \<Rightarrow> PointIterator \<Rightarrow> FragmentIterator option
    \<Rightarrow> FragmentIterator option \<Rightarrow> IterId list" where
  "closedByBody E p rd rk = closes (snd (body E p rd rk (initState rd rk)))"

text \<open>What the first loop adds for a record it does not skip: the translated key with
  the output user key, and the translated value before it is materialised.\<close>

definition emit :: "Env \<Rightarrow> InternalKey \<times> LazyValue \<Rightarrow> InternalKey \<times> LazyValue" where
  "emit E kv = (let (key, val) = translate E kv in (key\<lparr>UserKey := outputKey E (UserKey key)\<rparr>, val))"

definition materialise :: "LazyValue \<Rightarrow> bytes" where
  "materialise v = (case v of Inr b \<Rightarrow> b | Inl _ \<Rightarrow> [])"

definition spansOf :: "FragmentIterator option \<Rightarrow> Span list" where
  "spansOf it = (case it of None \<Rightarrow> [] | Some i \<Rightarrow> fSpans i)"

text \<open>The order of the keys of a span by descending trailer.\<close>

definition trailerSorted :: "Env \<Rightarrow> Key list \<Rightarrow> bool" where
  "trailerSorted E ks =
     sorted_wrt (\<lambda>a b. trailerNum E (KeyTrailer b) \<le> trailerNum E (KeyTrailer a)) ks"

definition onePerKindSuffix :: "Key list \<Rightarrow> bool" where
  "onePerKindSuffix ks = distinct (map (\<lambda>k. (KeyKind k, Suffix k)) ks)"

subsection \<open>A concrete environment\<close>

text \<open>
  A comparer in the style of the keys of the test data (\<^verbatim>\<open>a@1\<close>): keys are compared as
  byte strings, and the prefix of a key ends before its first \<^verbatim>\<open>@\<close>.
\<close>

fun bytesCompare :: "bytes \<Rightarrow> bytes \<Rightarrow> int" where
  "bytesCompare [] [] = 0"
| "bytesCompare [] (y # ys) = - 1"
| "bytesCompare (x # xs) [] = 1"
| "bytesCompare (x # xs) (y # ys) =
     (if (of_char x :: nat) < of_char y then - 1
      else if (of_char y :: nat) < of_char x then 1
      else bytesCompare xs ys)"

definition atSplit :: "bytes \<Rightarrow> nat" where
  "atSplit key = length (takeWhile (\<lambda>c. c \<noteq> CHR ''@'') key)"

definition testComparer :: Comparer where
  "testComparer = \<lparr>Compare = bytesCompare, Equal = (\<lambda>a b. a = b), Split = atSplit\<rparr>"

text \<open>
  Modelled from the spec: \<^verbatim>\<open>rangekey.Coalesce\<close> is not part of these sources. The spec
  has it "group operations by logical effect (set/unset/delete per suffix for range
  keys)", resolve "conflicting operations on the same suffix" so that the latest wins,
  and produce "at most one operation per (kind, suffix) pair". The keys of a span come
  latest first, so the first operation of each group is kept: the deletes are one group,
  the sets and unsets of one suffix are one group.
\<close>

definition sameEffect :: "(bytes \<Rightarrow> bytes \<Rightarrow> bool) \<Rightarrow> Key \<Rightarrow> Key \<Rightarrow> bool" where
  "sameEffect eq a b =
     (if KeyKind a = InternalKeyKindRangeKeyDelete \<or> KeyKind b = InternalKeyKindRangeKeyDelete
      then KeyKind a = KeyKind b
      else eq (Suffix a) (Suffix b))"

fun specCoalesce :: "(bytes \<Rightarrow> bytes \<Rightarrow> int) \<Rightarrow> (bytes \<Rightarrow> bytes \<Rightarrow> bool) \<Rightarrow> Key list \<Rightarrow> Key list" where
  "specCoalesce cmp eq [] = []"
| "specCoalesce cmp eq (k # ks) = k # specCoalesce cmp eq (filter (\<lambda>k'. \<not> sameEffect eq k k') ks)"

definition neverFails :: Oracle where
  "neverFails op w = None"

definition addFails :: Oracle where
  "addFails op w = (case op of OpAdd k v \<Rightarrow> Some (Error ''add'') | _ \<Rightarrow> None)"

definition testKindCode :: "InternalKeyKind \<Rightarrow> nat" where
  "testKindCode k =
     (case k of
        InternalKeyKindDelete \<Rightarrow> 0
      | InternalKeyKindSet \<Rightarrow> 1
      | InternalKeyKindMerge \<Rightarrow> 2
      | InternalKeyKindSingleDelete \<Rightarrow> 7
      | InternalKeyKindRangeDelete \<Rightarrow> 15
      | InternalKeyKindRangeKeyDelete \<Rightarrow> 19
      | InternalKeyKindRangeKeyUnset \<Rightarrow> 20
      | InternalKeyKindRangeKeySet \<Rightarrow> 21
      | InternalKeyKindDeleteSized \<Rightarrow> 23)"

text \<open>The environment of \<^verbatim>\<open>buildForIngest\<close>: no unique prefixes, no synthetic prefix
  or suffix; the target version is one that does not know sized deletes.\<close>

definition testEnv :: Env where
  "testEnv =
     \<lparr>comparer = testComparer, uniquePrefixes = False,
      syntheticSuffix = \<lparr>suffixIsSet = False, suffixBytes = []\<rparr>,
      syntheticPrefix = \<lparr>prefixIsSet = False, prefixApply = (\<lambda>key. key)\<rparr>,
      targetFMV = 14, FormatDeleteSizedAndObsolete = 15, Coalesce = specCoalesce,
      kindCode = testKindCode, fails = neverFails\<rparr>"

definition ikey :: "bytes \<Rightarrow> nat \<Rightarrow> InternalKeyKind \<Rightarrow> InternalKey" where
  "ikey u seq kind = \<lparr>UserKey = u, Trailer = MakeTrailer (of_nat seq) kind\<rparr>"

definition rkey :: "nat \<Rightarrow> InternalKeyKind \<Rightarrow> bytes \<Rightarrow> bytes \<Rightarrow> Key" where
  "rkey seq kind suffix v = \<lparr>KeyTrailer = MakeTrailer (of_nat seq) kind, Suffix = suffix, Value = v\<rparr>"

definition emptyFrag :: FragmentIterator where
  "emptyFrag = \<lparr>fSpans = [], fErr = None, fClose = None\<rparr>"

definition testPoints :: PointIterator where
  "testPoints =
     \<lparr>pItems = [(ikey ''a'' 7 InternalKeyKindSet, Inr ''x''),
                (ikey ''a'' 3 InternalKeyKindDeleteSized, Inr ''8''),
                (ikey ''b'' 5 InternalKeyKindDeleteSized, Inr ''9''),
                (ikey ''c'' 4 InternalKeyKindMerge, Inr ''z'')],
      pClose = None\<rparr>"

definition testRangeKeys :: FragmentIterator where
  "testRangeKeys =
     \<lparr>fSpans = [\<lparr>Start = ''a'', End = ''d'',
                 Keys = [rkey 9 InternalKeyKindRangeKeyUnset ''@3'' [],
                         rkey 8 InternalKeyKindRangeKeySet ''@3'' ''foo'',
                         rkey 6 InternalKeyKindRangeKeySet ''@5'' ''bar'',
                         rkey 2 InternalKeyKindRangeKeyDelete [] []]\<rparr>],
      fErr = None, fClose = None\<rparr>"

text \<open>A stream of two records with the empty user key, newest first.\<close>

definition emptyKeyPoints :: PointIterator where
  "emptyKeyPoints =
     \<lparr>pItems = [(ikey [] 2 InternalKeyKindSet, Inr ''x''),
                (ikey [] 1 InternalKeyKindSet, Inr ''y'')],
      pClose = None\<rparr>"

subsection \<open>The deduplication the loop is meant to perform\<close>

text \<open>The identity key of a user key: the key itself, or its prefix when unique prefixes
  are asked for.\<close>

definition identityKey :: "Env \<Rightarrow> bytes \<Rightarrow> bytes" where
  "identityKey E key = (if uniquePrefixes E then take (Split (comparer E) key) key else key)"

text \<open>
  Following the spec's words: "for each distinct identity key, emit only the first
  record seen; drop all later records with an equal identity key". \<open>seen\<close> holds the user
  keys of the records emitted so far.
\<close>

fun firstOfEachIdentity :: "Env \<Rightarrow> bytes list \<Rightarrow> (InternalKey \<times> LazyValue) list \<Rightarrow> (InternalKey \<times> LazyValue) list" where
  "firstOfEachIdentity E seen [] = []"
| "firstOfEachIdentity E seen (kv # rest) =
     (if list_ex (\<lambda>s. Equal (comparer E) (identityKey E s) (identityKey E (UserKey (fst kv)))) seen
      then firstOfEachIdentity E seen rest
      else kv # firstOfEachIdentity E (seen @ [UserKey (fst kv)]) rest)"

text \<open>What a comparer promises: \<^verbatim>\<open>Compare\<close> is a total preorder given by the sign of its
  result, and \<^verbatim>\<open>Equal\<close> holds exactly where \<^verbatim>\<open>Compare\<close> returns zero.\<close>

definition lawful :: "Comparer \<Rightarrow> bool" where
  "lawful c =
     ((\<forall>a. Compare c a a = 0)
      \<and> (\<forall>a b. Compare c a b \<le> 0 \<longleftrightarrow> 0 \<le> Compare c b a)
      \<and> (\<forall>a b d. Compare c a b \<le> 0 \<and> Compare c b d \<le> 0 \<longrightarrow> Compare c a d \<le> 0)
      \<and> (\<forall>a b. Equal c a b \<longleftrightarrow> Compare c a b = 0))"

definition identityLe :: "Env \<Rightarrow> bytes \<Rightarrow> bytes \<Rightarrow> bool" where
  "identityLe E a b = (Compare (comparer E) (identityKey E a) (identityKey E b) \<le> 0)"

definition sortedByIdentity :: "Env \<Rightarrow> (InternalKey \<times> LazyValue) list \<Rightarrow> bool" where
  "sortedByIdentity E items = sorted_wrt (identityLe E) (map (\<lambda>kv. UserKey (fst kv)) items)"

definition firstKeyNotEmpty :: "(InternalKey \<times> LazyValue) list \<Rightarrow> bool" where
  "firstKeyNotEmpty items = (case items of [] \<Rightarrow> True | kv # rest \<Rightarrow> UserKey (fst kv) \<noteq> [])"

section \<open>The file system that tracks open files\<close>

text \<open>
  \<^verbatim>\<open>openFilesFS\<close> wraps an inner file system. The inner file system and its files are
  collaborators: what an inner call returns is an argument of the model. A file of the
  inner file system is an opaque handle, and nil is \<open>None\<close>.

  An \<^verbatim>\<open>*openFile\<close> is a pointer; \<^verbatim>\<open>&openFile{...}\<close> allocates a new one, different from every
  pointer allocated before. The model allocates addresses from a counter. The Go map
  \<^verbatim>\<open>files\<close>, keyed by these pointers, is an association list with one entry per key; the
  order in which Go ranges over the map is not specified, here it is the order of the list.
\<close>

type_synonym innerFile = nat

type_synonym addr = nat

record Frame =
  Function :: string
  FileName :: string
  Line :: nat

record openFile =
  File :: innerFile
  pcs :: "Frame list"

record openFilesFS =
  files :: "(addr \<times> openFile) list"
  nextAddr :: addr

definition WithOpenFileTracking :: openFilesFS where
  "WithOpenFileTracking = \<lparr>files = [], nextAddr = 0\<rparr>"

text \<open>\<^verbatim>\<open>wrapOpenFile\<close>: a nil file is returned as it is; otherwise a new \<^verbatim>\<open>openFile\<close> records at
  most twenty frames of the caller's stack and is put into the map.\<close>

definition wrapOpenFile :: "openFilesFS \<Rightarrow> innerFile option \<Rightarrow> Frame list \<Rightarrow> addr option \<times> openFilesFS" where
  "wrapOpenFile fs f stack =
     (case f of
        None \<Rightarrow> (None, fs)
      | Some file \<Rightarrow>
          let a = nextAddr fs;
              opened = \<lparr>File = file, pcs = take 20 stack\<rparr>
          in (Some a, fs\<lparr>files := AList.update a opened (files fs), nextAddr := Suc a\<rparr>))"

text \<open>The five functions that return a file: the inner call, then \<^verbatim>\<open>wrapOpenFile\<close> on its
  file, and its error is returned unchanged.\<close>

definition Create :: "openFilesFS \<Rightarrow> innerFile option \<times> error option \<Rightarrow> Frame list
    \<Rightarrow> (addr option \<times> error option) \<times> openFilesFS" where
  "Create fs inner stack = (let (f, fs') = wrapOpenFile fs (fst inner) stack in ((f, snd inner), fs'))"

definition Open :: "openFilesFS \<Rightarrow> innerFile option \<times> error option \<Rightarrow> Frame list
    \<Rightarrow> (addr option \<times> error option) \<times> openFilesFS" where
  "Open fs inner stack = (let (f, fs') = wrapOpenFile fs (fst inner) stack in ((f, snd inner), fs'))"

definition OpenReadWrite :: "openFilesFS \<Rightarrow> innerFile option \<times> error option \<Rightarrow> Frame list
    \<Rightarrow> (addr option \<times> error option) \<times> openFilesFS" where
  "OpenReadWrite fs inner stack = (let (f, fs') = wrapOpenFile fs (fst inner) stack in ((f, snd inner), fs'))"

definition OpenDir :: "openFilesFS \<Rightarrow> innerFile option \<times> error option \<Rightarrow> Frame list
    \<Rightarrow> (addr option \<times> error option) \<times> openFilesFS" where
  "OpenDir fs inner stack = (let (f, fs') = wrapOpenFile fs (fst inner) stack in ((f, snd inner), fs'))"

definition ReuseForWrite :: "openFilesFS \<Rightarrow> innerFile option \<times> error option \<Rightarrow> Frame list
    \<Rightarrow> (addr option \<times> error option) \<times> openFilesFS" where
  "ReuseForWrite fs inner stack = (let (f, fs') = wrapOpenFile fs (fst inner) stack in ((f, snd inner), fs'))"

text \<open>\<^verbatim>\<open>openFile.Close\<close>: the inner file is closed, the file is deleted from the map of its
  parent, and the error of the inner close is returned.\<close>

definition Close :: "openFilesFS \<Rightarrow> addr \<Rightarrow> error option \<Rightarrow> error option \<times> openFilesFS" where
  "Close fs f innerErr = (innerErr, fs\<lparr>files := AList.delete f (files fs)\<rparr>)"

text \<open>Decimal digits of a number, as \<^verbatim>\<open>%d\<close> prints them.\<close>

fun showNat :: "nat \<Rightarrow> string" where
  "showNat n = (if n < 10 then [char_of (48 + n)] else showNat (n div 10) @ [char_of (48 + n mod 10)])"

declare showNat.simps [simp del]

text \<open>\<^verbatim>\<open>dumpStack\<close>: one entry per recorded frame; the loop prints before it tests, so a
  file with no recorded frame prints one empty frame.\<close>

definition printFrame :: "Frame \<Rightarrow> string" where
  "printFrame fr = Function fr @ [CHR 0x0A] @ '' '' @ FileName fr @ '':'' @ showNat (Line fr) @ [CHR 0x0A]"

definition dumpStack :: "openFile \<Rightarrow> string" where
  "dumpStack f =
     (if pcs f = [] then printFrame \<lparr>Function = [], FileName = [], Line = 0\<rparr>
      else concat (map printFrame (pcs f)))"

text \<open>\<^verbatim>\<open>dumpStacks\<close>: what is written to the writer.\<close>

definition dumpStacks :: "openFilesFS \<Rightarrow> string" where
  "dumpStacks fs =
     (if length (files fs) = 0 then []
      else showNat (length (files fs)) @ '' open files:'' @ [CHR 0x0A]
           @ concat (map (\<lambda>(a, f). dumpStack f @ [CHR 0x0A]) (files fs)))"

subsection \<open>Histories of calls\<close>

text \<open>
  A call of the wrapper, with what the inner file system returns for it and, for the
  functions that return a file, the stack of the caller. The functions that only pass
  their arguments on (\<^verbatim>\<open>Link\<close>, \<^verbatim>\<open>Remove\<close>, \<^verbatim>\<open>Rename\<close>, \<^verbatim>\<open>List\<close>, \<^verbatim>\<open>Stat\<close> and the others) are
  one kind of call.
\<close>

datatype call =
    CallCreate "innerFile option \<times> error option" "Frame list"
  | CallOpen "innerFile option \<times> error option" "Frame list"
  | CallOpenReadWrite "innerFile option \<times> error option" "Frame list"
  | CallOpenDir "innerFile option \<times> error option" "Frame list"
  | CallReuseForWrite "innerFile option \<times> error option" "Frame list"
  | CallClose addr "error option"
  | CallPassThrough "error option"

datatype ret =
    RetFile "addr option" "error option"
  | RetError "error option"

fun exec :: "openFilesFS \<Rightarrow> call \<Rightarrow> ret \<times> openFilesFS" where
  "exec fs (CallCreate inner stack) = (let ((f, e), fs') = Create fs inner stack in (RetFile f e, fs'))"
| "exec fs (CallOpen inner stack) = (let ((f, e), fs') = Open fs inner stack in (RetFile f e, fs'))"
| "exec fs (CallOpenReadWrite inner stack) = (let ((f, e), fs') = OpenReadWrite fs inner stack in (RetFile f e, fs'))"
| "exec fs (CallOpenDir inner stack) = (let ((f, e), fs') = OpenDir fs inner stack in (RetFile f e, fs'))"
| "exec fs (CallReuseForWrite inner stack) = (let ((f, e), fs') = ReuseForWrite fs inner stack in (RetFile f e, fs'))"
| "exec fs (CallClose f innerErr) = (let (e, fs') = Close fs f innerErr in (RetError e, fs'))"
| "exec fs (CallPassThrough e) = (RetError e, fs)"

fun run :: "openFilesFS \<Rightarrow> call list \<Rightarrow> (call \<times> ret) list \<times> openFilesFS" where
  "run fs [] = ([], fs)"
| "run fs (c # cs) =
     (let (r, fs1) = exec fs c;
          (h, fs2) = run fs1 cs
      in ((c, r) # h, fs2))"

text \<open>
  The handles a history leaves open, read off what the calls returned: a file that was
  returned and is not nil is added, a file that is closed is removed.
\<close>

fun notYetClosed :: "addr set \<Rightarrow> (call \<times> ret) list \<Rightarrow> addr set" where
  "notYetClosed S [] = S"
| "notYetClosed S ((CallClose f innerErr, r) # h) = notYetClosed (S - {f}) h"
| "notYetClosed S ((c, RetFile (Some f) e) # h) = notYetClosed (insert f S) h"
| "notYetClosed S ((c, r) # h) = notYetClosed S h"

definition tracked :: "openFilesFS \<Rightarrow> addr set" where
  "tracked fs = set (map fst (files fs))"

definition testStack :: "Frame list" where
  "testStack = [\<lparr>Function = ''main.open'', FileName = ''main.go'', Line = 12\<rparr>]"

definition testCalls :: "call list" where
  "testCalls =
     [CallCreate (Some 7, None) testStack,
      CallOpen (None, Some (Error ''not found'')) testStack,
      CallOpenDir (Some 8, None) testStack,
      CallClose 0 (Some (Error ''sync'')),
      CallPassThrough None]"

section \<open>Bounds and virtual tables\<close>

text \<open>
  The code that constrains bounds and reads a virtual table is not part of these sources:
  the sources hold its test transcript (\<^verbatim>\<open>sstable/testdata/virtual_reader\<close>). The
  definitions of this section follow the spec and are checked against the transcript.
  User keys are ordered as byte strings, as the keys of the transcript are.
\<close>

record 'k Bounds =
  bStart :: 'k
  bEnd :: 'k
  bEndInclusive :: bool

text \<open>The keys a bounds pair denotes: the start is inclusive, the end as its flag says.\<close>

definition inBounds :: "'k::linorder Bounds \<Rightarrow> 'k \<Rightarrow> bool" where
  "inBounds b k = (bStart b \<le> k \<and> (k < bEnd b \<or> (bEndInclusive b \<and> k = bEnd b)))"

text \<open>
  Modelled from the spec: the bounds constrainer, which is missing from the sources.
  "1. \<open>eStart = max(qStart, vStart)\<close>. 2. If \<open>qEnd\<close> is within the virtual range
  (\<open>qEnd < vEnd\<close>, or \<open>qEnd == vEnd\<close> with matching inclusivity), keep \<open>eEnd = qEnd\<close>,
  \<open>eEndInclusive = qEndInclusive\<close> unchanged. 3. Otherwise (\<open>qEnd\<close> exceeds \<open>vEnd\<close>), clamp
  \<open>eEnd = vEnd\<close> and force \<open>eEndInclusive = true\<close>."
  The inclusivity of a query end at \<open>vEnd\<close> matches when the query end is within the virtual
  range: an inclusive query end needs an inclusive virtual end. (The transcript has
  \<^verbatim>\<open>constrain bb,c,false\<close> answer \<^verbatim>\<open>bb,c,false\<close> for the virtual bounds \<open>[b, c]\<close>, so an
  exclusive query end at an inclusive virtual end is kept.)
\<close>

definition constrainBounds :: "'k::linorder Bounds \<Rightarrow> 'k Bounds \<Rightarrow> 'k Bounds" where
  "constrainBounds q v =
     (let eStart = max (bStart q) (bStart v)
      in if bEnd q < bEnd v \<or> (bEnd q = bEnd v \<and> (bEndInclusive q \<longrightarrow> bEndInclusive v))
         then \<lparr>bStart = eStart, bEnd = bEnd q, bEndInclusive = bEndInclusive q\<rparr>
         else \<lparr>bStart = eStart, bEnd = bEnd v, bEndInclusive = True\<rparr>)"

text \<open>
  Modelled from the spec: the same constrainer under the other reading of step 3. The spec
  gives as the reason of step 3 that "the virtual boundary key itself is always part of
  the virtual table's content", and it asks that the constrainer "returns a subset of the
  virtual Bounds always". For a virtual table whose end is exclusive the boundary key is
  not part of its content, and the two sentences cannot both be kept to the letter: here
  the clamped end takes the flag of the virtual end, so that the result is a subset of the
  virtual bounds. The two readings differ only where the virtual end is exclusive; the
  transcript, whose virtual bounds are \<open>[b, c]\<close>, does not tell them apart.
\<close>

definition constrainOwnFlag :: "'k::linorder Bounds \<Rightarrow> 'k Bounds \<Rightarrow> 'k Bounds" where
  "constrainOwnFlag q v =
     (let eStart = max (bStart q) (bStart v)
      in if bEnd q < bEnd v \<or> (bEnd q = bEnd v \<and> (bEndInclusive q \<longrightarrow> bEndInclusive v))
         then \<lparr>bStart = eStart, bEnd = bEnd q, bEndInclusive = bEndInclusive q\<rparr>
         else \<lparr>bStart = eStart, bEnd = bEnd v, bEndInclusive = bEndInclusive v\<rparr>)"

text \<open>Two bounds pairs overlap when a key lies in both. Both starts are inclusive, so it
  is enough to look at the larger start.\<close>

definition overlaps :: "'k::linorder Bounds \<Rightarrow> 'k Bounds \<Rightarrow> bool" where
  "overlaps q v = (inBounds q (max (bStart q) (bStart v)) \<and> inBounds v (max (bStart q) (bStart v)))"

text \<open>Modelled from the spec: an iterator that consumes effective bounds, which is missing
  from the sources. It reports the keys of its source that lie in the bounds ("callers
  (iterators) must treat this as no keys").\<close>

definition scanKeys :: "'k::linorder Bounds \<Rightarrow> 'k list \<Rightarrow> 'k list" where
  "scanKeys e keys = filter (inBounds e) keys"

subsection \<open>Virtual tables\<close>

text \<open>
  Modelled from the spec: the virtual reader, which is missing from the sources. A
  virtual table is a backing table with two boundary keys. Its
  end boundary is an exclusive sentinel when it "carries the reserved \<open>Max\<close> sequence
  sentinel". The view "translates any externally supplied iterator bounds through
  BoundsConstrainer against its own Bounds" and "suppresses any record whose user key
  equals the table's end boundary when that boundary carries the reserved \<open>Max\<close> sequence
  sentinel". No key transform is configured in this model.
\<close>

record VirtualTable =
  backingPoints :: "(InternalKey \<times> bytes) list"
  backingRangeDels :: "Span list"
  lower :: InternalKey
  upper :: InternalKey

definition IsExclusiveSentinel :: "InternalKey \<Rightarrow> bool" where
  "IsExclusiveSentinel k = (SeqNum k = SeqNumMax)"

definition virtualBounds :: "VirtualTable \<Rightarrow> bytes Bounds" where
  "virtualBounds vt =
     \<lparr>bStart = UserKey (lower vt), bEnd = UserKey (upper vt),
      bEndInclusive = (\<not> IsExclusiveSentinel (upper vt))\<rparr>"

definition effectiveBounds :: "VirtualTable \<Rightarrow> bytes Bounds option \<Rightarrow> bytes Bounds" where
  "effectiveBounds vt q =
     (case q of None \<Rightarrow> virtualBounds vt | Some qb \<Rightarrow> constrainBounds qb (virtualBounds vt))"

definition suppressed :: "VirtualTable \<Rightarrow> InternalKey \<times> bytes \<Rightarrow> bool" where
  "suppressed vt r = (IsExclusiveSentinel (upper vt) \<and> UserKey (fst r) = UserKey (upper vt))"

text \<open>The records a point iterator over the view can reach, in the order of the backing
  table.\<close>

definition visiblePoints :: "VirtualTable \<Rightarrow> bytes Bounds option \<Rightarrow> (InternalKey \<times> bytes) list" where
  "visiblePoints vt q =
     filter (\<lambda>r. inBounds (effectiveBounds vt q) (UserKey (fst r)) \<and> \<not> suppressed vt r)
       (backingPoints vt)"

text \<open>
  The positioning primitives. The iterator is at an index of the reachable records, or
  before the first (\<open>- 1\<close>) or past the last of them; each primitive moves it and yields
  the record at the new position, if there is one.
\<close>

datatype IterOp = First | Last | Next | Prev | SeekGE bytes | SeekLT bytes

definition firstGE :: "(InternalKey \<times> bytes) list \<Rightarrow> bytes \<Rightarrow> int" where
  "firstGE rs k = int (length (takeWhile (\<lambda>r. UserKey (fst r) < k) rs))"

definition position :: "(InternalKey \<times> bytes) list \<Rightarrow> int \<Rightarrow> IterOp \<Rightarrow> int" where
  "position rs pos op =
     (case op of
        First \<Rightarrow> 0
      | Last \<Rightarrow> int (length rs) - 1
      | Next \<Rightarrow> min (pos + 1) (int (length rs))
      | Prev \<Rightarrow> max (pos - 1) (- 1)
      | SeekGE k \<Rightarrow> firstGE rs k
      | SeekLT k \<Rightarrow> firstGE rs k - 1)"

definition at :: "(InternalKey \<times> bytes) list \<Rightarrow> int \<Rightarrow> (InternalKey \<times> bytes) option" where
  "at rs pos = (if 0 \<le> pos \<and> pos < int (length rs) then Some (rs ! nat pos) else None)"

fun iterate :: "(InternalKey \<times> bytes) list \<Rightarrow> int \<Rightarrow> IterOp list \<Rightarrow> (InternalKey \<times> bytes) option list" where
  "iterate rs pos [] = []"
| "iterate rs pos (op # ops) = at rs (position rs pos op) # iterate rs (position rs pos op) ops"

definition iter :: "VirtualTable \<Rightarrow> bytes Bounds option \<Rightarrow> IterOp list \<Rightarrow> (InternalKey \<times> bytes) option list" where
  "iter vt q ops = iterate (visiblePoints vt q) (- 1) ops"

text \<open>The compaction iterator of the transcript (\<^verbatim>\<open>citer\<close>): all point records of the
  view, first to last, with no bounds of its own.\<close>

definition citer :: "VirtualTable \<Rightarrow> (InternalKey \<times> bytes) list" where
  "citer vt = visiblePoints vt None"

text \<open>
  Modelled from the spec: the range-deletion iterator of a virtual table, which is
  missing from the sources. Spans "are truncated to the
  virtual Bounds at open time", "with any span crossing a boundary truncated in
  place"; a span of which nothing is left is not reported.
\<close>

definition truncateSpan :: "bytes \<Rightarrow> bytes \<Rightarrow> Span \<Rightarrow> Span option" where
  "truncateSpan lo hi sp =
     (let s = max lo (Start sp); e = min hi (End sp)
      in if s < e then Some (sp\<lparr>Start := s, End := e\<rparr>) else None)"

definition scanRangeDel :: "VirtualTable \<Rightarrow> Span list" where
  "scanRangeDel vt =
     List.map_filter (truncateSpan (UserKey (lower vt)) (UserKey (upper vt))) (backingRangeDels vt)"

subsection \<open>The tables of the transcript\<close>

definition testBounds :: "bytes Bounds" where
  "testBounds = \<lparr>bStart = ''b'', bEnd = ''c'', bEndInclusive = True\<rparr>"

definition query :: "bytes \<Rightarrow> bytes \<Rightarrow> bool \<Rightarrow> bytes Bounds" where
  "query s e incl = \<lparr>bStart = s, bEnd = e, bEndInclusive = incl\<rparr>"

text \<open>Test 6 of the transcript: four points and the range deletion \<open>[d, e)\<close>, virtualized
  to \<^verbatim>\<open>a.SET.1-e.RANGEDEL.72057594037927935\<close>.\<close>

definition sentinelTable :: VirtualTable where
  "sentinelTable =
     \<lparr>backingPoints = [(ikey ''a'' 1 InternalKeyKindSet, ''a''),
                       (ikey ''d'' 2 InternalKeyKindSet, ''d''),
                       (ikey ''e'' 3 InternalKeyKindSet, ''e''),
                       (ikey ''f'' 5 InternalKeyKindSet, ''f'')],
      backingRangeDels = [\<lparr>Start = ''d'', End = ''e'',
                            Keys = [rkey 4 InternalKeyKindRangeDelete [] []]\<rparr>],
      lower = ikey ''a'' 1 InternalKeyKindSet,
      upper = \<lparr>UserKey = ''e'', Trailer = MakeTrailer SeqNumMax InternalKeyKindRangeDelete\<rparr>\<rparr>"

section \<open>Properties of the ingestion build\<close>

subsection \<open>Closing and errors, step by step\<close>

lemma frame_writer [simp]: "frame (s\<lparr>writer := w\<rparr>) r s' = frame s r s'"
  by (simp add: frame_def)

lemma frame_refl [simp]: "frame s None s"
  by (simp add: frame_def opt_list_def)

lemma frame_observe [simp]: "frame s (Some e) (observe (Some e) s)"
  by (simp add: frame_def opt_list_def observe_def)

lemma pointLoop_frame: "pointLoop E items l s = (r, s') \<Longrightarrow> frame s r s'"
proof (induction items arbitrary: l s)
  case Nil
  then show ?case by auto
next
  case (Cons kv rest)
  from Cons.prems show ?case
    by (auto simp: Let_def split: if_splits prod.splits sum.splits dest!: Cons.IH)
qed

lemma rangeDelLoop_frame: "rangeDelLoop E spans s = (r, s') \<Longrightarrow> frame s r s'"
proof (induction spans arbitrary: s)
  case Nil
  then show ?case by auto
next
  case (Cons sp rest)
  from Cons.prems show ?case
    by (auto split: sum.splits dest!: Cons.IH)
qed

lemma rangeKeyLoop_frame: "rangeKeyLoop E spans s = (r, s') \<Longrightarrow> frame s r s'"
proof (induction spans arbitrary: s)
  case Nil
  then show ?case by auto
next
  case (Cons sp rest)
  from Cons.prems show ?case
    by (auto split: sum.splits dest!: Cons.IH)
qed

lemma init_closed: "closedUpTo rd rk 0 (initState rd rk)"
  by (auto simp: closedUpTo_def initState_def present_def split: IterId.splits)

lemma close_held:
  "held s i \<Longrightarrow> CloseHelper_Close i c s = (c, observe c (s\<lparr>held := (held s)(i := False), closes := closes s @ [i]\<rparr>))"
  by (simp add: CloseHelper_Close_def)

lemma close_not_held:
  "\<not> held s i \<Longrightarrow> CloseHelper_Close i c s = (None, s)"
  by (simp add: CloseHelper_Close_def)

lemma close_writer: "writer (snd (CloseHelper_Close i c s)) = writer s"
  by (simp add: CloseHelper_Close_def observe_def split: option.splits)

lemma observe_fields [simp]:
  "held (observe c s) = held s" "closes (observe c s) = closes s" "writer (observe c s) = writer s"
  "errors (observe c s) = errors s @ opt_list c"
  by (auto simp: observe_def opt_list_def split: option.splits)

lemma closedUpTo_frame:
  "frame s r s' \<Longrightarrow> closedUpTo rd rk n s' = closedUpTo rd rk n s"
  by (simp add: frame_def closedUpTo_def)

lemma rangeDelPhase_cases:
  assumes "rangeDelPhase E it s = (r, s')"
  obtains (nil) "it = None" "r = None" "s' = s"
  | (loopFail) i e where "it = Some i" "rangeDelLoop E (fSpans i) s = (Some e, s')" "r = Some e"
  | (iterFail) i e s1 where "it = Some i" "rangeDelLoop E (fSpans i) s = (None, s1)" "fErr i = Some e"
      "r = Some e" "s' = observe (Some e) s1"
  | (closed) i s1 where "it = Some i" "rangeDelLoop E (fSpans i) s = (None, s1)" "fErr i = None"
      "CloseHelper_Close RangeDelIter (fClose i) s1 = (r, s')"
proof (cases it)
  case None
  with assms that(1) show ?thesis by (simp add: rangeDelPhase_def)
next
  case (Some i)
  obtain r1 s1 where l: "rangeDelLoop E (fSpans i) s = (r1, s1)" by (cases "rangeDelLoop E (fSpans i) s")
  show ?thesis
  proof (cases r1)
    case (Some e)
    with assms \<open>it = Some i\<close> l have "r = Some e" "s' = s1" by (auto simp: rangeDelPhase_def)
    with l Some \<open>it = Some i\<close> that(2) show ?thesis by blast
  next
    case None
    note r1 = this
    show ?thesis
    proof (cases "fErr i")
      case (Some e)
      with assms \<open>it = Some i\<close> l r1 have "r = Some e" "s' = observe (Some e) s1"
        by (auto simp: rangeDelPhase_def)
      with l r1 Some \<open>it = Some i\<close> that(3) show ?thesis by blast
    next
      case None
      with assms \<open>it = Some i\<close> l r1 have "CloseHelper_Close RangeDelIter (fClose i) s1 = (r, s')"
        by (simp add: rangeDelPhase_def)
      with l r1 None \<open>it = Some i\<close> that(4) show ?thesis by blast
    qed
  qed
qed

lemma rangeKeyPhase_cases:
  assumes "rangeKeyPhase E it s = (r, s')"
  obtains (nil) "it = None" "r = None" "s' = s"
  | (loopFail) i e where "it = Some i" "rangeKeyLoop E (fSpans i) s = (Some e, s')" "r = Some e"
  | (iterFail) i e s1 where "it = Some i" "rangeKeyLoop E (fSpans i) s = (None, s1)" "fErr i = Some e"
      "r = Some e" "s' = observe (Some e) s1"
  | (closed) i s1 where "it = Some i" "rangeKeyLoop E (fSpans i) s = (None, s1)" "fErr i = None"
      "CloseHelper_Close RangeKeyIter (fClose i) s1 = (r, s')"
proof (cases it)
  case None
  with assms that(1) show ?thesis by (simp add: rangeKeyPhase_def)
next
  case (Some i)
  obtain r1 s1 where l: "rangeKeyLoop E (fSpans i) s = (r1, s1)" by (cases "rangeKeyLoop E (fSpans i) s")
  show ?thesis
  proof (cases r1)
    case (Some e)
    with assms \<open>it = Some i\<close> l have "r = Some e" "s' = s1" by (auto simp: rangeKeyPhase_def)
    with l Some \<open>it = Some i\<close> that(2) show ?thesis by blast
  next
    case None
    note r1 = this
    show ?thesis
    proof (cases "fErr i")
      case (Some e)
      with assms \<open>it = Some i\<close> l r1 have "r = Some e" "s' = observe (Some e) s1"
        by (auto simp: rangeKeyPhase_def)
      with l r1 Some \<open>it = Some i\<close> that(3) show ?thesis by blast
    next
      case None
      with assms \<open>it = Some i\<close> l r1 have "CloseHelper_Close RangeKeyIter (fClose i) s1 = (r, s')"
        by (simp add: rangeKeyPhase_def)
      with l r1 None \<open>it = Some i\<close> that(4) show ?thesis by blast
    qed
  qed
qed

lemma rangeDelPhase_spec:
  assumes "rangeDelPhase E rd s = (r, s')" and "closedUpTo rd rk 1 s"
  shows "errors s' = errors s @ opt_list r
    \<and> (r = None \<longrightarrow> closedUpTo rd rk (length (present rd None)) s')
    \<and> (\<exists>n. closedUpTo rd rk n s')"
  using assms(1)
proof (cases rule: rangeDelPhase_cases)
  case nil
  with assms(2) show ?thesis
    by (auto simp: opt_list_def present_def)
next
  case (loopFail i e)
  from rangeDelLoop_frame[OF loopFail(2)] loopFail(3) assms(2) show ?thesis
    by (auto simp: frame_def closedUpTo_def)
next
  case (iterFail i e s1)
  from rangeDelLoop_frame[OF iterFail(2)] iterFail(4,5) assms(2) show ?thesis
    by (auto simp: frame_def closedUpTo_def opt_list_def)
next
  case (closed i s1)
  note f = rangeDelLoop_frame[OF closed(2)]
  from f assms(2) have h: "held s1 RangeDelIter" and c1: "closedUpTo rd rk 1 s1"
    by (auto simp: frame_def closedUpTo_def present_def closed(1))
  from closed(4) close_held[OF h] have r: "r = fClose i"
    and s': "s' = observe (fClose i) (s1\<lparr>held := (held s1)(RangeDelIter := False), closes := closes s1 @ [RangeDelIter]\<rparr>)"
    by auto
  from c1 have c2: "closedUpTo rd rk 2 s'"
    by (auto simp: s' closedUpTo_def present_def closed(1))
  from f have "errors s' = errors s @ opt_list r"
    by (simp add: s' r frame_def opt_list_def)
  moreover from c2 have "closedUpTo rd rk (length (present rd None)) s'"
    by (simp add: present_def closed(1) numeral_2_eq_2)
  moreover from c2 have "\<exists>n. closedUpTo rd rk n s'" by blast
  ultimately show ?thesis by blast
qed

lemma rangeKeyPhase_spec:
  assumes "rangeKeyPhase E rk s = (r, s')" and "closedUpTo rd rk (length (present rd None)) s"
  shows "errors s' = errors s @ opt_list r
    \<and> (r = None \<longrightarrow> closedUpTo rd rk (length (present rd rk)) s')
    \<and> (\<exists>n. closedUpTo rd rk n s')"
  using assms(1)
proof (cases rule: rangeKeyPhase_cases)
  case nil
  with assms(2) show ?thesis
    by (auto simp: opt_list_def present_def)
next
  case (loopFail i e)
  from rangeKeyLoop_frame[OF loopFail(2)] loopFail(3) assms(2) show ?thesis
    by (auto simp: frame_def closedUpTo_def)
next
  case (iterFail i e s1)
  from rangeKeyLoop_frame[OF iterFail(2)] iterFail(4,5) assms(2) show ?thesis
    by (auto simp: frame_def closedUpTo_def opt_list_def)
next
  case (closed i s1)
  note f = rangeKeyLoop_frame[OF closed(2)]
  from f assms(2) have h: "held s1 RangeKeyIter"
    and c1: "closedUpTo rd rk (length (present rd None)) s1"
    by (auto simp: frame_def closedUpTo_def present_def closed(1))
  from closed(4) close_held[OF h] have r: "r = fClose i"
    and s': "s' = observe (fClose i) (s1\<lparr>held := (held s1)(RangeKeyIter := False), closes := closes s1 @ [RangeKeyIter]\<rparr>)"
    by auto
  from c1 have c2: "closedUpTo rd rk (length (present rd rk)) s'"
    by (auto simp: s' closedUpTo_def present_def closed(1))
  from f have "errors s' = errors s @ opt_list r"
    by (simp add: s' r frame_def opt_list_def)
  moreover from c2 have "\<exists>n. closedUpTo rd rk n s'" by blast
  ultimately show ?thesis using c2 by blast
qed

lemma finish_spec:
  "finish E s = (res, s') \<Longrightarrow>
     held s' = held s \<and> closes s' = closes s \<and>
     points (writer s') = points (writer s) \<and> rangeKeys (writer s') = rangeKeys (writer s) \<and>
     (case res of Inl e \<Rightarrow> errors s' = errors s @ [e] | Inr m \<Rightarrow> errors s' = errors s \<and> m = writer s')"
  by (auto simp: finish_def Writer_Close_def Writer_Metadata_def opt_list_def split: sum.splits option.splits)

text \<open>The paths through the body.\<close>

lemma body_cases:
  assumes "body E p rd rk s0 = (res, s)"
  obtains (failPoint) e where "pointLoop E (pItems p) None s0 = (Some e, s)" "res = Inl e"
  | (failClose) e s1 where "pointLoop E (pItems p) None s0 = (None, s1)"
      "CloseHelper_Close PointIter (pClose p) s1 = (Some e, s)" "res = Inl e"
  | (failRangeDel) e s1 s2 where "pointLoop E (pItems p) None s0 = (None, s1)"
      "CloseHelper_Close PointIter (pClose p) s1 = (None, s2)"
      "rangeDelPhase E rd s2 = (Some e, s)" "res = Inl e"
  | (failRangeKey) e s1 s2 s3 where "pointLoop E (pItems p) None s0 = (None, s1)"
      "CloseHelper_Close PointIter (pClose p) s1 = (None, s2)"
      "rangeDelPhase E rd s2 = (None, s3)"
      "rangeKeyPhase E rk s3 = (Some e, s)" "res = Inl e"
  | (finished) s1 s2 s3 s4 where "pointLoop E (pItems p) None s0 = (None, s1)"
      "CloseHelper_Close PointIter (pClose p) s1 = (None, s2)"
      "rangeDelPhase E rd s2 = (None, s3)"
      "rangeKeyPhase E rk s3 = (None, s4)" "finish E s4 = (res, s)"
proof -
  obtain r1 s1 where l1: "pointLoop E (pItems p) None s0 = (r1, s1)"
    by (cases "pointLoop E (pItems p) None s0")
  obtain r2 s2 where l2: "CloseHelper_Close PointIter (pClose p) s1 = (r2, s2)"
    by (cases "CloseHelper_Close PointIter (pClose p) s1")
  obtain r3 s3 where l3: "rangeDelPhase E rd s2 = (r3, s3)"
    by (cases "rangeDelPhase E rd s2")
  obtain r4 s4 where l4: "rangeKeyPhase E rk s3 = (r4, s4)"
    by (cases "rangeKeyPhase E rk s3")
  show ?thesis
  proof (cases r1)
    case (Some e)
    with assms l1 have "res = Inl e" "s = s1" by (auto simp: body_def)
    with l1 Some that(1) show ?thesis by blast
  next
    case None
    note r1 = this
    show ?thesis
    proof (cases r2)
      case (Some e)
      with assms l1 r1 l2 have "res = Inl e" "s = s2" by (auto simp: body_def)
      with l1 r1 l2 Some that(2) show ?thesis by blast
    next
      case None
      note r2 = this
      show ?thesis
      proof (cases r3)
        case (Some e)
        with assms l1 r1 l2 r2 l3 have "res = Inl e" "s = s3" by (auto simp: body_def)
        with l1 r1 l2 r2 l3 Some that(3) show ?thesis by blast
      next
        case None
        note r3 = this
        show ?thesis
        proof (cases r4)
          case (Some e)
          with assms l1 r1 l2 r2 l3 r3 l4 have "res = Inl e" "s = s4" by (auto simp: body_def)
          with l1 r1 l2 r2 l3 r3 l4 Some that(4) show ?thesis by blast
        next
          case None
          with assms l1 r1 l2 r2 l3 r3 l4 have "finish E s4 = (res, s)" by (auto simp: body_def)
          with l1 r1 l2 r2 l3 r3 l4 None that(5) show ?thesis by blast
        qed
      qed
    qed
  qed
qed

lemma point_closed:
  assumes "pointLoop E items None (initState rd rk) = (None, s1)"
    and "CloseHelper_Close PointIter c s1 = (r, s2)"
  shows "closedUpTo rd rk 1 s2" and "errors s2 = opt_list r" and "writer s2 = writer s1"
proof -
  note f1 = pointLoop_frame[OF assms(1)]
  have c1: "closedUpTo rd rk 0 s1"
    using closedUpTo_frame[OF f1] init_closed by simp
  from f1 have e1: "errors s1 = []" by (simp add: frame_def opt_list_def initState_def)
  from c1 have h: "held s1 PointIter" by (simp add: closedUpTo_def present_def)
  from assms(2) close_held[OF h] have r: "r = c"
    and s2: "s2 = observe c (s1\<lparr>held := (held s1)(PointIter := False), closes := closes s1 @ [PointIter]\<rparr>)"
    by auto
  from c1 show "closedUpTo rd rk 1 s2"
    by (auto simp: s2 closedUpTo_def present_def)
  show "errors s2 = opt_list r" using e1 by (simp add: s2 r)
  show "writer s2 = writer s1" by (simp add: s2)
qed

lemma body_spec:
  assumes "body E p rd rk (initState rd rk) = (res, s)"
  shows "case res of
           Inr m \<Rightarrow> errors s = [] \<and> closedUpTo rd rk (length (present rd rk)) s \<and> m = writer s
         | Inl e \<Rightarrow> errors s = [e] \<and> (\<exists>n. closedUpTo rd rk n s)"
  using assms
proof (cases rule: body_cases)
  case (failPoint e)
  note f1 = pointLoop_frame[OF failPoint(1)]
  have "closedUpTo rd rk 0 s"
    using closedUpTo_frame[OF f1] init_closed by simp
  moreover from f1 have "errors s = [e]" by (simp add: frame_def opt_list_def initState_def)
  ultimately show ?thesis using failPoint(2) by auto
next
  case (failClose e s1)
  from point_closed[OF failClose(1,2)] failClose(3) show ?thesis
    by (auto simp: opt_list_def)
next
  case (failRangeDel e s1 s2)
  note pc = point_closed[OF failRangeDel(1,2)]
  from rangeDelPhase_spec[OF failRangeDel(3) pc(1)] pc(2) failRangeDel(4) show ?thesis
    by (auto simp: opt_list_def)
next
  case (failRangeKey e s1 s2 s3)
  note pc = point_closed[OF failRangeKey(1,2)]
  note sp3 = rangeDelPhase_spec[OF failRangeKey(3) pc(1)]
  from sp3 have c3: "closedUpTo rd rk (length (present rd None)) s3" by blast
  from rangeKeyPhase_spec[OF failRangeKey(4) c3] sp3 pc(2) failRangeKey(5) show ?thesis
    by (auto simp: opt_list_def)
next
  case (finished s1 s2 s3 s4)
  note pc = point_closed[OF finished(1,2)]
  note sp3 = rangeDelPhase_spec[OF finished(3) pc(1)]
  from sp3 have c3: "closedUpTo rd rk (length (present rd None)) s3" by blast
  note sp4 = rangeKeyPhase_spec[OF finished(4) c3]
  from sp4 have c4: "closedUpTo rd rk (length (present rd rk)) s4" by blast
  from sp4 sp3 pc(2) have e4: "errors s4 = []" by (simp add: opt_list_def)
  note fs = finish_spec[OF finished(5)]
  from fs c4 have c5: "closedUpTo rd rk (length (present rd rk)) s" by (simp add: closedUpTo_def)
  show ?thesis
  proof (cases res)
    case (Inl e)
    with fs e4 c5 show ?thesis by auto
  next
    case (Inr m)
    with fs e4 c5 show ?thesis by auto
  qed
qed

lemma defers_spec:
  fixes pc :: "error option"
  assumes "closedUpTo rd rk n s"
  defines "s1 \<equiv> snd (CloseHelper_Close RangeKeyIter (fragClose rk) s)"
  defines "s2 \<equiv> snd (CloseHelper_Close RangeDelIter (fragClose rd) s1)"
  defines "s3 \<equiv> snd (CloseHelper_Close PointIter pc s2)"
  shows "closes s3 = take n (present rd rk) @ rev (drop n (present rd rk))"
    and "\<exists>es. errors s3 = errors s @ es"
    and "writer s3 = writer s"
    and "length (present rd rk) \<le> n \<Longrightarrow> s3 = s"
proof -
  consider "n = 0" | "n = 1" | "n = 2" | "n \<ge> 3" by linarith
  then show "closes s3 = take n (present rd rk) @ rev (drop n (present rd rk))"
    using assms(1)
    by cases (auto simp: s1_def s2_def s3_def closedUpTo_def present_def CloseHelper_Close_def numeral_2_eq_2 split: if_splits)
  show "\<exists>es. errors s3 = errors s @ es"
    by (auto simp: s1_def s2_def s3_def CloseHelper_Close_def)
  show "writer s3 = writer s"
    by (auto simp: s1_def s2_def s3_def CloseHelper_Close_def)
  show "length (present rd rk) \<le> n \<Longrightarrow> s3 = s"
    using assms(1)
    by (auto simp: s1_def s2_def s3_def closedUpTo_def present_def CloseHelper_Close_def)
qed

text \<open>The function as its body followed by the three deferred calls.\<close>

lemma writeSST_unfold:
  assumes "writeSSTForIngestion E p rd rk = (res, s)"
  obtains sb where "body E p rd rk (initState rd rk) = (res, sb)"
    and "s = snd (CloseHelper_Close PointIter (pClose p)
              (snd (CloseHelper_Close RangeDelIter (fragClose rd)
                 (snd (CloseHelper_Close RangeKeyIter (fragClose rk) sb)))))"
  using assms
  by (cases "body E p rd rk (initState rd rk)") (auto simp: writeSSTForIngestion_def Let_def)

lemma writeSST_spec:
  assumes "writeSSTForIngestion E p rd rk = (res, s)"
  shows "\<exists>n. closes s = take n (present rd rk) @ rev (drop n (present rd rk))"
    and "res = Inr m \<Longrightarrow> closes s = present rd rk \<and> errors s = [] \<and> m = writer s"
    and "res = Inl e \<Longrightarrow> \<exists>es. errors s = e # es"
proof -
  from assms obtain sb where 1: "body E p rd rk (initState rd rk) = (res, sb)"
    "s = snd (CloseHelper_Close PointIter (pClose p)
              (snd (CloseHelper_Close RangeDelIter (fragClose rd)
                 (snd (CloseHelper_Close RangeKeyIter (fragClose rk) sb)))))"
    by (rule writeSST_unfold)
  note bs = body_spec[OF 1(1)]
  from bs obtain n where n: "closedUpTo rd rk n sb"
    by (cases res) auto
  from defers_spec(1)[OF n, of "pClose p"] 1(2)
  show "\<exists>n. closes s = take n (present rd rk) @ rev (drop n (present rd rk))" by auto
  {
    assume r: "res = Inr m"
    with bs have c: "closedUpTo rd rk (length (present rd rk)) sb" and e: "errors sb = []"
      and m: "m = writer sb" by auto
    from defers_spec(4)[OF c, of "pClose p"] 1(2) have "s = sb" by simp
    with c e m show "closes s = present rd rk \<and> errors s = [] \<and> m = writer s"
      by (simp add: closedUpTo_def)
  }
  {
    assume r: "res = Inl e"
    with bs have e: "errors sb = [e]" by auto
    from defers_spec(2)[OF n, of "pClose p"] 1(2) e show "\<exists>es. errors s = e # es" by auto
  }
qed

text \<open>The order of the closes: what the body closed, then the others in reverse.\<close>

lemma writeSST_order:
  assumes "writeSSTForIngestion E p rd rk = (res, s)"
  shows "closedByBody E p rd rk = take (length (closedByBody E p rd rk)) (present rd rk)"
    and "closes s = closedByBody E p rd rk
           @ rev (drop (length (closedByBody E p rd rk)) (present rd rk))"
proof -
  from assms obtain sb where 1: "body E p rd rk (initState rd rk) = (res, sb)"
    "s = snd (CloseHelper_Close PointIter (pClose p)
              (snd (CloseHelper_Close RangeDelIter (fragClose rd)
                 (snd (CloseHelper_Close RangeKeyIter (fragClose rk) sb)))))"
    by (rule writeSST_unfold)
  from 1(1) have cb: "closedByBody E p rd rk = closes sb" by (simp add: closedByBody_def)
  from body_spec[OF 1(1)] obtain n where n: "closedUpTo rd rk n sb"
    by (cases res) auto
  then have c: "closes sb = take n (present rd rk)" by (simp add: closedUpTo_def)
  have d: "drop (length (take n (present rd rk))) (present rd rk) = drop n (present rd rk)"
    by (cases "n \<le> length (present rd rk)") (simp_all add: min_def)
  show "closedByBody E p rd rk = take (length (closedByBody E p rd rk)) (present rd rk)"
    unfolding cb c by (simp add: min_def)
  from defers_spec(1)[OF n, of "pClose p"] 1(2)
  show "closes s = closedByBody E p rd rk
           @ rev (drop (length (closedByBody E p rd rk)) (present rd rk))"
    unfolding cb c d by simp
qed

lemma close_grows: "CloseHelper_Close i c s = (r, s') \<Longrightarrow> \<exists>es. closes s' = closes s @ es"
  by (auto simp: CloseHelper_Close_def split: if_splits)

lemma rangeDelPhase_grows:
  assumes "rangeDelPhase E rd s = (r, s')"
  shows "\<exists>es. closes s' = closes s @ es"
  using assms
proof (cases rule: rangeDelPhase_cases)
  case nil
  then show ?thesis by simp
next
  case (loopFail i e)
  from rangeDelLoop_frame[OF loopFail(2)] show ?thesis by (simp add: frame_def)
next
  case (iterFail i e s1)
  from rangeDelLoop_frame[OF iterFail(2)] iterFail(5) show ?thesis by (simp add: frame_def)
next
  case (closed i s1)
  from rangeDelLoop_frame[OF closed(2)] close_grows[OF closed(4)] show ?thesis
    by (simp add: frame_def)
qed

lemma rangeKeyPhase_grows:
  assumes "rangeKeyPhase E rk s = (r, s')"
  shows "\<exists>es. closes s' = closes s @ es"
  using assms
proof (cases rule: rangeKeyPhase_cases)
  case nil
  then show ?thesis by simp
next
  case (loopFail i e)
  from rangeKeyLoop_frame[OF loopFail(2)] show ?thesis by (simp add: frame_def)
next
  case (iterFail i e s1)
  from rangeKeyLoop_frame[OF iterFail(2)] iterFail(5) show ?thesis by (simp add: frame_def)
next
  case (closed i s1)
  from rangeKeyLoop_frame[OF closed(2)] close_grows[OF closed(4)] show ?thesis
    by (simp add: frame_def)
qed

lemma point_closed_closes:
  assumes "pointLoop E items None (initState rd rk) = (None, s1)"
    and "CloseHelper_Close PointIter c s1 = (r, s2)"
  shows "closes s2 = [PointIter]"
  using point_closed(1)[OF assms] by (simp add: closedUpTo_def present_def)

lemma closedByBody_point_loop_failed:
  assumes "fst (pointLoop E (pItems p) None (initState rd rk)) \<noteq> None"
  shows "closedByBody E p rd rk = []"
proof -
  obtain r1 s1 where l: "pointLoop E (pItems p) None (initState rd rk) = (r1, s1)"
    by (cases "pointLoop E (pItems p) None (initState rd rk)")
  with assms obtain e where e: "r1 = Some e" by auto
  from l e have "body E p rd rk (initState rd rk) = (Inl e, s1)" by (simp add: body_def)
  moreover from pointLoop_frame[OF l] have "closes s1 = []" by (simp add: frame_def initState_def)
  ultimately show ?thesis by (simp add: closedByBody_def)
qed

lemma closedByBody_point_loop_done:
  assumes "fst (pointLoop E (pItems p) None (initState rd rk)) = None"
  shows "take 1 (closedByBody E p rd rk) = [PointIter]"
proof -
  obtain res sb where b: "body E p rd rk (initState rd rk) = (res, sb)"
    by (cases "body E p rd rk (initState rd rk)")
  have cb: "closedByBody E p rd rk = closes sb" by (simp add: closedByBody_def b)
  from b have "\<exists>es. closes sb = [PointIter] @ es"
  proof (cases rule: body_cases)
    case (failPoint e)
    with assms show ?thesis by simp
  next
    case (failClose e s1)
    from point_closed_closes[OF failClose(1,2)] show ?thesis by simp
  next
    case (failRangeDel e s1 s2)
    from point_closed_closes[OF failRangeDel(1,2)] rangeDelPhase_grows[OF failRangeDel(3)]
    show ?thesis by simp
  next
    case (failRangeKey e s1 s2 s3)
    from point_closed_closes[OF failRangeKey(1,2)] rangeDelPhase_grows[OF failRangeKey(3)]
      rangeKeyPhase_grows[OF failRangeKey(4)]
    show ?thesis by auto
  next
    case (finished s1 s2 s3 s4)
    from point_closed_closes[OF finished(1,2)] rangeDelPhase_grows[OF finished(3)]
      rangeKeyPhase_grows[OF finished(4)] finish_spec[OF finished(5)]
    show ?thesis by auto
  qed
  then show ?thesis by (auto simp: cb)
qed

subsection \<open>What reaches the writer\<close>

lemma pointLoop_ok:
  "pointLoop E items lastUserKey s = (None, s') \<Longrightarrow>
     s' = s\<lparr>writer := (writer s)\<lparr>points := points (writer s)
            @ map (\<lambda>kv. (fst (emit E kv), materialise (snd (emit E kv)))) (survivors E lastUserKey items)\<rparr>\<rparr>
     \<and> (\<forall>kv \<in> set (survivors E lastUserKey items). \<exists>b. snd (emit E kv) = Inr b)"
proof (induction items arbitrary: lastUserKey s)
  case Nil
  then show ?case by simp
next
  case (Cons kv rest)
  show ?case
  proof (cases "isDuplicate E lastUserKey (UserKey (fst kv))")
    case True
    with Cons show ?thesis by simp
  next
    case False
    obtain key val where tr: "translate E kv = (key, val)" by (cases "translate E kv")
    from Cons.prems False tr obtain b w where
      v: "val = Inr b" and
      a: "Writer_Add (fails E) (writer s) (key\<lparr>UserKey := outputKey E (UserKey key)\<rparr>) b = Inr w" and
      r: "pointLoop E rest (append_reset lastUserKey (UserKey (fst kv))) (s\<lparr>writer := w\<rparr>) = (None, s')"
      by (auto simp: Let_def split: sum.splits)
    from a have w: "w = (writer s)\<lparr>points := points (writer s) @ [(key\<lparr>UserKey := outputKey E (UserKey key)\<rparr>, b)]\<rparr>"
      by (auto simp: Writer_Add_def split: option.splits)
    from Cons.IH[OF r] False tr v w show ?thesis
      by (simp add: emit_def materialise_def)
  qed
qed

lemma Writer_Add_rangeKeys: "Writer_Add f w k v = Inr w' \<Longrightarrow> rangeKeys w' = rangeKeys w"
  by (auto simp: Writer_Add_def split: option.splits)

lemma Writer_DeleteRange_keeps:
  "Writer_DeleteRange f w a b = Inr w' \<Longrightarrow> rangeKeys w' = rangeKeys w \<and> points w' = points w"
  by (auto simp: Writer_DeleteRange_def split: option.splits)

lemma rangekey_Encode_adds:
  "rangekey_Encode f w sp = Inr w' \<Longrightarrow> rangeKeys w' = rangeKeys w @ [sp] \<and> points w' = points w"
  by (auto simp: rangekey_Encode_def split: option.splits)

lemma pointLoop_rangeKeys:
  "pointLoop E items l s = (r, s') \<Longrightarrow> rangeKeys (writer s') = rangeKeys (writer s)"
proof (induction items arbitrary: l s)
  case Nil
  then show ?case by auto
next
  case (Cons kv rest)
  from Cons.prems show ?case
    by (auto simp: Let_def split: if_splits prod.splits sum.splits
        dest!: Cons.IH Writer_Add_rangeKeys)
qed

lemma rangeDelLoop_writer:
  "rangeDelLoop E spans s = (r, s') \<Longrightarrow>
     points (writer s') = points (writer s) \<and> rangeKeys (writer s') = rangeKeys (writer s)"
proof (induction spans arbitrary: s)
  case Nil
  then show ?case by auto
next
  case (Cons sp rest)
  from Cons.prems show ?case
    by (auto split: sum.splits dest!: Cons.IH Writer_DeleteRange_keeps)
qed

lemma rangeKeyLoop_writer:
  "rangeKeyLoop E spans s = (r, s') \<Longrightarrow>
     points (writer s') = points (writer s)
     \<and> (\<exists>n. rangeKeys (writer s') = rangeKeys (writer s) @ map (collapse E) (take n spans))
     \<and> (r = None \<longrightarrow> rangeKeys (writer s') = rangeKeys (writer s) @ map (collapse E) spans)"
proof (induction spans arbitrary: s)
  case Nil
  then show ?case by auto
next
  case (Cons sp rest)
  show ?case
  proof (cases "rangekey_Encode (fails E) (writer s) (collapse E sp)")
    case (Inl e)
    with Cons.prems have "s' = observe (Some e) s" "r = Some e" by auto
    then have "points (writer s') = points (writer s)"
      and "rangeKeys (writer s') = rangeKeys (writer s) @ map (collapse E) (take 0 (sp # rest))"
      and "r \<noteq> None" by simp_all
    then show ?thesis by blast
  next
    case (Inr w)
    with Cons.prems have l: "rangeKeyLoop E rest (s\<lparr>writer := w\<rparr>) = (r, s')" by simp
    from rangekey_Encode_adds[OF Inr]
    have w: "rangeKeys w = rangeKeys (writer s) @ [collapse E sp]" "points w = points (writer s)"
      by simp_all
    from Cons.IH[OF l] w obtain n where
      p: "points (writer s') = points (writer s)" and
      n: "rangeKeys (writer s') = rangeKeys (writer s) @ map (collapse E) (take (Suc n) (sp # rest))" and
      f: "r = None \<longrightarrow> rangeKeys (writer s') = rangeKeys (writer s) @ map (collapse E) (sp # rest)"
      by auto
    then show ?thesis by blast
  qed
qed

lemma close_keeps_writer: "CloseHelper_Close i c s = (r, s') \<Longrightarrow> writer s' = writer s"
  using close_writer[of i c s] by simp

lemma rangeDelPhase_writer:
  assumes "rangeDelPhase E rd s = (r, s')"
  shows "points (writer s') = points (writer s) \<and> rangeKeys (writer s') = rangeKeys (writer s)"
  using assms
proof (cases rule: rangeDelPhase_cases)
  case nil
  then show ?thesis by simp
next
  case (loopFail i e)
  from rangeDelLoop_writer[OF loopFail(2)] show ?thesis .
next
  case (iterFail i e s1)
  from rangeDelLoop_writer[OF iterFail(2)] iterFail(5) show ?thesis by simp
next
  case (closed i s1)
  from rangeDelLoop_writer[OF closed(2)] close_keeps_writer[OF closed(4)] show ?thesis by simp
qed

lemma rangeKeyPhase_writer:
  assumes "rangeKeyPhase E rk s = (r, s')"
  shows "points (writer s') = points (writer s)
     \<and> (\<exists>n. rangeKeys (writer s') = rangeKeys (writer s) @ map (collapse E) (take n (spansOf rk)))
     \<and> (r = None \<longrightarrow> rangeKeys (writer s') = rangeKeys (writer s) @ map (collapse E) (spansOf rk))"
  using assms
proof (cases rule: rangeKeyPhase_cases)
  case nil
  then show ?thesis by (simp add: spansOf_def)
next
  case (loopFail i e)
  from rangeKeyLoop_writer[OF loopFail(2)] loopFail(1,3) show ?thesis by (simp add: spansOf_def)
next
  case (iterFail i e s1)
  from rangeKeyLoop_writer[OF iterFail(2)] iterFail(1,4,5) show ?thesis
    by (auto simp: spansOf_def intro: exI[of _ "length (fSpans i)"])
next
  case (closed i s1)
  from rangeKeyLoop_writer[OF closed(2)] close_keeps_writer[OF closed(4)] closed(1) show ?thesis
    by (auto simp: spansOf_def intro: exI[of _ "length (fSpans i)"])
qed

lemma init_writer [simp]:
  "points (writer (initState rd rk)) = []" "rangeKeys (writer (initState rd rk)) = []"
  by (simp_all add: initState_def NewWriter_def)

lemma body_rangeKeys:
  assumes "body E p rd rk (initState rd rk) = (res, s)"
  shows "\<exists>n. rangeKeys (writer s) = map (collapse E) (take n (spansOf rk))"
  using assms
proof (cases rule: body_cases)
  case (failPoint e)
  from pointLoop_rangeKeys[OF failPoint(1)] have "rangeKeys (writer s) = map (collapse E) (take 0 (spansOf rk))"
    by simp
  then show ?thesis by blast
next
  case (failClose e s1)
  from pointLoop_rangeKeys[OF failClose(1)] close_keeps_writer[OF failClose(2)]
  have "rangeKeys (writer s) = map (collapse E) (take 0 (spansOf rk))" by simp
  then show ?thesis by blast
next
  case (failRangeDel e s1 s2)
  from pointLoop_rangeKeys[OF failRangeDel(1)] close_keeps_writer[OF failRangeDel(2)]
    rangeDelPhase_writer[OF failRangeDel(3)]
  have "rangeKeys (writer s) = map (collapse E) (take 0 (spansOf rk))" by simp
  then show ?thesis by blast
next
  case (failRangeKey e s1 s2 s3)
  from pointLoop_rangeKeys[OF failRangeKey(1)] close_keeps_writer[OF failRangeKey(2)]
    rangeDelPhase_writer[OF failRangeKey(3)] rangeKeyPhase_writer[OF failRangeKey(4)]
  show ?thesis by auto
next
  case (finished s1 s2 s3 s4)
  from pointLoop_rangeKeys[OF finished(1)] close_keeps_writer[OF finished(2)]
    rangeDelPhase_writer[OF finished(3)] rangeKeyPhase_writer[OF finished(4)]
    finish_spec[OF finished(5)]
  have "rangeKeys (writer s) = map (collapse E) (take (length (spansOf rk)) (spansOf rk))" by simp
  then show ?thesis by blast
qed

lemma body_success:
  assumes "body E p rd rk (initState rd rk) = (Inr m, s)"
  shows "points m = map (\<lambda>kv. (fst (emit E kv), materialise (snd (emit E kv)))) (survivors E None (pItems p))"
    and "\<forall>kv \<in> set (survivors E None (pItems p)). \<exists>b. snd (emit E kv) = Inr b"
    and "rangeKeys m = map (collapse E) (spansOf rk)"
proof -
  from assms obtain s1 s2 s3 s4 where
    1: "pointLoop E (pItems p) None (initState rd rk) = (None, s1)" and
    2: "CloseHelper_Close PointIter (pClose p) s1 = (None, s2)" and
    3: "rangeDelPhase E rd s2 = (None, s3)" and
    4: "rangeKeyPhase E rk s3 = (None, s4)" and
    5: "finish E s4 = (Inr m, s)"
    by (cases rule: body_cases) auto
  note a = pointLoop_ok[OF 1]
  from a have p1: "points (writer s1) = map (\<lambda>kv. (fst (emit E kv), materialise (snd (emit E kv)))) (survivors E None (pItems p))"
    by (metis (no_types, lifting) BuildState.select_convs(1) BuildState.surjective BuildState.update_convs(1)
        Writer.select_convs(1) Writer.surjective Writer.update_convs(1) append_Nil init_writer(1))
  from pointLoop_rangeKeys[OF 1] have k1: "rangeKeys (writer s1) = []" by simp
  from finish_spec[OF 5] have m: "m = writer s" "points (writer s) = points (writer s4)"
    "rangeKeys (writer s) = rangeKeys (writer s4)" by auto
  from p1 close_keeps_writer[OF 2] rangeDelPhase_writer[OF 3] rangeKeyPhase_writer[OF 4] m
  show "points m = map (\<lambda>kv. (fst (emit E kv), materialise (snd (emit E kv)))) (survivors E None (pItems p))"
    by simp
  from a show "\<forall>kv \<in> set (survivors E None (pItems p)). \<exists>b. snd (emit E kv) = Inr b" by blast
  from k1 close_keeps_writer[OF 2] rangeDelPhase_writer[OF 3] rangeKeyPhase_writer[OF 4] m
  show "rangeKeys m = map (collapse E) (spansOf rk)" by simp
qed

subsection \<open>The span handed to the encoder\<close>

lemma mset_insertKey: "mset (insertKey E k xs) = add_mset k (mset xs)"
  by (induction xs) auto

lemma mset_SortKeysByTrailer: "mset (SortKeysByTrailer E ks) = mset ks"
  by (induction ks) (auto simp: mset_insertKey)

lemma set_insertKey: "set (insertKey E k xs) = insert k (set xs)"
  by (induction xs) auto

lemma sorted_insertKey: "trailerSorted E xs \<Longrightarrow> trailerSorted E (insertKey E k xs)"
  by (induction xs) (auto simp: trailerSorted_def set_insertKey)

lemma sorted_SortKeysByTrailer: "trailerSorted E (SortKeysByTrailer E ks)"
proof (induction ks)
  case Nil
  show ?case by (simp add: trailerSorted_def)
next
  case (Cons k ks)
  then show ?case by (simp add: sorted_insertKey)
qed

lemma collapse_seqnum: "k \<in> set (Keys (collapse E sp)) \<Longrightarrow> KeySeqNum k = SeqNumZero"
proof -
  assume "k \<in> set (Keys (collapse E sp))"
  then have "k \<in># mset (SortKeysByTrailer E
      (map (\<lambda>k. k\<lparr>KeyTrailer := MakeTrailer 0 (KeyKind k)\<rparr>)
        (Coalesce E (Compare (comparer E)) (Equal (comparer E)) (Keys sp))))"
    by (simp add: collapse_def Let_def)
  then have "k \<in> set (map (\<lambda>k. k\<lparr>KeyTrailer := MakeTrailer 0 (KeyKind k)\<rparr>)
        (Coalesce E (Compare (comparer E)) (Equal (comparer E)) (Keys sp)))"
    by (simp add: mset_SortKeysByTrailer)
  then show ?thesis
    by (auto simp: KeySeqNum_def MakeTrailer_def SeqNumZero_def)
qed

lemma collapse_sorted: "trailerSorted E (Keys (collapse E sp))"
  by (simp add: collapse_def Let_def sorted_SortKeysByTrailer)

lemma collapse_unique:
  assumes "onePerKindSuffix (Coalesce E (Compare (comparer E)) (Equal (comparer E)) (Keys sp))"
  shows "onePerKindSuffix (Keys (collapse E sp))"
proof -
  let ?cs = "Coalesce E (Compare (comparer E)) (Equal (comparer E)) (Keys sp)"
  let ?z = "\<lambda>k. k\<lparr>KeyTrailer := MakeTrailer 0 (KeyKind k)\<rparr>"
  let ?f = "\<lambda>k. (KeyKind k, Suffix k)"
  have f: "?f (?z k) = ?f k" for k
    by (simp add: KeyKind_def MakeTrailer_def)
  have "mset (map ?f (Keys (collapse E sp))) = image_mset ?f (mset (SortKeysByTrailer E (map ?z ?cs)))"
    by (simp add: collapse_def Let_def)
  also have "\<dots> = image_mset ?f (image_mset ?z (mset ?cs))"
    by (simp only: mset_SortKeysByTrailer mset_map)
  also have "\<dots> = image_mset (\<lambda>k. ?f (?z k)) (mset ?cs)"
    by (simp add: image_mset.compositionality comp_def)
  also have "\<dots> = mset (map ?f ?cs)"
    by (simp only: f mset_map)
  finally have "mset (map ?f (Keys (collapse E sp))) = mset (map ?f ?cs)" .
  from mset_eq_imp_distinct_iff[OF this] assms show ?thesis
    by (simp add: onePerKindSuffix_def)
qed

text \<open>The coalescing modelled from the spec keeps one operation per kind and suffix when
  the comparer's \<^verbatim>\<open>Equal\<close> holds of every suffix and itself.\<close>

lemma set_specCoalesce: "set (specCoalesce cmp eq ks) \<subseteq> set ks"
proof (induction cmp eq ks rule: specCoalesce.induct)
  case (1 cmp eq)
  show ?case by simp
next
  case (2 cmp eq k ks)
  then show ?case by auto
qed

lemma specCoalesce_unique:
  "(\<forall>a. eq a a) \<Longrightarrow> onePerKindSuffix (specCoalesce cmp eq ks)"
  unfolding onePerKindSuffix_def
proof (induction cmp eq ks rule: specCoalesce.induct)
  case (1 cmp eq)
  show ?case by simp
next
  case (2 cmp eq k ks)
  have "(KeyKind k, Suffix k) \<noteq> (KeyKind x, Suffix x)"
    if "x \<in> set (specCoalesce cmp eq (filter (\<lambda>k'. \<not> sameEffect eq k k') ks))" for x
  proof -
    from that set_specCoalesce[of cmp eq "filter (\<lambda>k'. \<not> sameEffect eq k k') ks"]
    have "\<not> sameEffect eq k x" by auto
    with "2.prems" show ?thesis by (auto simp: sameEffect_def split: if_splits)
  qed
  then have "(KeyKind k, Suffix k) \<notin> (\<lambda>k. (KeyKind k, Suffix k)) `
      set (specCoalesce cmp eq (filter (\<lambda>k'. \<not> sameEffect eq k k') ks))"
    by (auto simp only: image_iff)
  with 2 show ?case by simp
qed


subsection \<open>The record that is added for a surviving record\<close>

lemma emit_key:
  "fst (emit E (k, lv)) =
     \<lparr>UserKey = outputKey E (UserKey k),
      Trailer = (SeqNumZero,
        if targetFMV E < FormatDeleteSizedAndObsolete E \<and> Kind k = InternalKeyKindDeleteSized
        then InternalKeyKindDelete else Kind k)\<rparr>"
  by (simp add: emit_def translate_def Let_def SetSeqNum_def SetKind_def MakeTrailer_def
      Kind_def SeqNum_def)

lemma emit_value:
  "snd (emit E (k, lv)) =
     (if targetFMV E < FormatDeleteSizedAndObsolete E \<and> Kind k = InternalKeyKindDeleteSized
      then LazyValue_zero else lv)"
  by (simp add: emit_def translate_def Let_def SetSeqNum_def SetKind_def MakeTrailer_def
      Kind_def SeqNum_def)

lemma writeSST_success:
  assumes "writeSSTForIngestion E p rd rk = (Inr m, s)"
  shows "points m = map (\<lambda>kv. (fst (emit E kv), materialise (snd (emit E kv)))) (survivors E None (pItems p))"
    and "\<forall>kv \<in> set (survivors E None (pItems p)). \<exists>b. snd (emit E kv) = Inr b"
    and "rangeKeys m = map (collapse E) (spansOf rk)"
proof -
  from assms obtain sb where b: "body E p rd rk (initState rd rk) = (Inr m, sb)"
    by (rule writeSST_unfold)
  from body_success[OF b]
  show "points m = map (\<lambda>kv. (fst (emit E kv), materialise (snd (emit E kv)))) (survivors E None (pItems p))"
    and "\<forall>kv \<in> set (survivors E None (pItems p)). \<exists>b. snd (emit E kv) = Inr b"
    and "rangeKeys m = map (collapse E) (spansOf rk)"
    by simp_all
qed

lemma writeSST_rangeKeys:
  assumes "writeSSTForIngestion E p rd rk = (res, s)"
  shows "\<exists>n. rangeKeys (writer s) = map (collapse E) (take n (spansOf rk))"
proof -
  from assms obtain sb where b: "body E p rd rk (initState rd rk) = (res, sb)"
    and s: "s = snd (CloseHelper_Close PointIter (pClose p)
              (snd (CloseHelper_Close RangeDelIter (fragClose rd)
                 (snd (CloseHelper_Close RangeKeyIter (fragClose rk) sb)))))"
    by (rule writeSST_unfold)
  from s have "writer s = writer sb" by (simp add: close_writer)
  with body_rangeKeys[OF b] show ?thesis by simp
qed

text \<open>Evaluating the function on the concrete environments.\<close>

lemmas build_eval =
  writeSSTForIngestion_def body_def initState_def fragClose_def CloseHelper_Close_def observe_def
  rangeDelPhase_def rangeKeyPhase_def finish_def isDuplicate_def append_reset_def translate_def
  outputKey_def Writer_Add_def Writer_DeleteRange_def rangekey_Encode_def
  Writer_Close_def Writer_Metadata_def NewWriter_def collapse_def sameEffect_def
  trailerNum_def KeyKind_def Kind_def SeqNum_def KeySeqNum_def SetSeqNum_def SetKind_def
  MakeTrailer_def SeqNumZero_def LazyValue_zero_def
  testEnv_def testComparer_def neverFails_def addFails_def testKindCode_def
  testPoints_def testRangeKeys_def emptyFrag_def emptyKeyPoints_def ikey_def rkey_def

lemma test_run_result:
  "fst (writeSSTForIngestion testEnv testPoints (Some emptyFrag) (Some testRangeKeys)) =
     Inr \<lparr>points = [(\<lparr>UserKey = ''a'', Trailer = (0, InternalKeyKindSet)\<rparr>, ''x''),
                    (\<lparr>UserKey = ''b'', Trailer = (0, InternalKeyKindDelete)\<rparr>, []),
                    (\<lparr>UserKey = ''c'', Trailer = (0, InternalKeyKindMerge)\<rparr>, ''z'')],
          rangeDels = [],
          rangeKeys = [\<lparr>Start = ''a'', End = ''d'',
                         Keys = [\<lparr>KeyTrailer = (0, InternalKeyKindRangeKeySet), Suffix = ''@5'', Value = ''bar''\<rparr>,
                                 \<lparr>KeyTrailer = (0, InternalKeyKindRangeKeyUnset), Suffix = ''@3'', Value = []\<rparr>,
                                 \<lparr>KeyTrailer = (0, InternalKeyKindRangeKeyDelete), Suffix = [], Value = []\<rparr>]\<rparr>],
          finished = True\<rparr>"
  by (simp add: build_eval)

lemma test_survivors:
  "survivors testEnv None (pItems testPoints) =
     [(ikey ''a'' 7 InternalKeyKindSet, Inr ''x''),
      (ikey ''b'' 5 InternalKeyKindDeleteSized, Inr ''9''),
      (ikey ''c'' 4 InternalKeyKindMerge, Inr ''z'')]"
  by (simp add: build_eval)

subsection \<open>Duplicate keys\<close>

text \<open>
  C1. The claim: the built table holds exactly one record per identity key, the first
  one of the stream. The loop tells "no record written yet" from "a record written" by
  \<^verbatim>\<open>lastUserKey != nil\<close>, and \<^verbatim>\<open>lastUserKey\<close> is still nil after a record whose user key
  is empty. On the stream of two records with the empty user key, both records are added:
  the second one is not recognised as a duplicate of the first.
\<close>

theorem emptyKey_duplicate_is_added:
  "fst (writeSSTForIngestion testEnv emptyKeyPoints None None) =
     Inr \<lparr>points = [(\<lparr>UserKey = [], Trailer = (SeqNumZero, InternalKeyKindSet)\<rparr>, ''x''),
                    (\<lparr>UserKey = [], Trailer = (SeqNumZero, InternalKeyKindSet)\<rparr>, ''y'')],
          rangeDels = [], rangeKeys = [], finished = True\<rparr>"
  by (simp add: build_eval)

subsection \<open>Closing the iterators, and the error that is returned\<close>

text \<open>
  C4, as amended. On every exit path each iterator that is not nil is closed exactly
  once. The iterators the body has closed itself when it returns come first, in the order
  point, range deletion, range key; all the others are closed after them by the deferred
  calls, in the reverse order range key, range deletion, point. So when the point loop
  fails nothing has been closed by the body and the whole order is the reverse one; when
  the point loop finishes the point iterator is closed first; and when the function
  succeeds the order is point, range deletion, range key. The error returned is the first
  error any callee returned, and the function succeeds exactly when no callee returned an
  error: an error of a deferred close is never returned.
\<close>

theorem writeSST_closes_each_once_first_error_returned:
  assumes "writeSSTForIngestion E p rd rk = (res, s)"
  shows "mset (closes s) = mset (present rd rk)
    \<and> closedByBody E p rd rk = take (length (closedByBody E p rd rk)) (present rd rk)
    \<and> closes s = closedByBody E p rd rk
          @ rev (drop (length (closedByBody E p rd rk)) (present rd rk))
    \<and> (fst (pointLoop E (pItems p) None (initState rd rk)) \<noteq> None \<longrightarrow>
          closes s = rev (present rd rk))
    \<and> (fst (pointLoop E (pItems p) None (initState rd rk)) = None \<longrightarrow>
          take 1 (closes s) = [PointIter])
    \<and> ((\<exists>m. res = Inr m) \<longrightarrow> closes s = present rd rk)
    \<and> res = (case errors s of [] \<Rightarrow> Inr (writer s) | e # es \<Rightarrow> Inl e)"
proof -
  let ?cb = "closedByBody E p rd rk"
  note sp = writeSST_spec[OF assms]
  note ord = writeSST_order[OF assms]
  have "mset (closes s) = mset ?cb + mset (drop (length ?cb) (present rd rk))"
    by (subst ord(2)) simp
  also have "\<dots> = mset (take (length ?cb) (present rd rk)) + mset (drop (length ?cb) (present rd rk))"
    using ord(1) by simp
  also have "\<dots> = mset (take (length ?cb) (present rd rk) @ drop (length ?cb) (present rd rk))"
    by (simp only: mset_append)
  also have "\<dots> = mset (present rd rk)"
    by (simp only: append_take_drop_id)
  finally have 1: "mset (closes s) = mset (present rd rk)" .
  have 4: "closes s = rev (present rd rk)"
    if "fst (pointLoop E (pItems p) None (initState rd rk)) \<noteq> None"
    using closedByBody_point_loop_failed[OF that] ord(2) by simp
  have 5: "take 1 (closes s) = [PointIter]"
    if "fst (pointLoop E (pItems p) None (initState rd rk)) = None"
  proof -
    from closedByBody_point_loop_done[OF that] obtain es where "?cb = PointIter # es"
      by (cases ?cb) auto
    with ord(2) show ?thesis by simp
  qed
  have 6: "(\<exists>m. res = Inr m) \<longrightarrow> closes s = present rd rk"
    using sp(2) by blast
  have 7: "res = (case errors s of [] \<Rightarrow> Inr (writer s) | e # es \<Rightarrow> Inl e)"
  proof (cases res)
    case (Inl e)
    from sp(3)[OF Inl] Inl show ?thesis by auto
  next
    case (Inr m)
    from sp(2)[OF Inr] Inr show ?thesis by auto
  qed
  from 1 ord 4 5 6 7 show ?thesis by blast
qed

lemma test_run_point_loop:
  "fst (pointLoop testEnv (pItems testPoints) None (initState (Some emptyFrag) (Some testRangeKeys))) = None"
  "fst (pointLoop (testEnv\<lparr>fails := addFails\<rparr>) (pItems testPoints) None
      (initState (Some emptyFrag) (Some testRangeKeys))) = Some (Error ''add'')"
  by (simp_all add: build_eval)

theorem writeSST_closes_each_once_witness:
  "closes (snd (writeSSTForIngestion testEnv testPoints (Some emptyFrag) (Some testRangeKeys)))
     = [PointIter, RangeDelIter, RangeKeyIter]
   \<and> errors (snd (writeSSTForIngestion testEnv testPoints (Some emptyFrag) (Some testRangeKeys))) = []
   \<and> closes (snd (writeSSTForIngestion (testEnv\<lparr>fails := addFails\<rparr>) testPoints
        (Some emptyFrag) (Some testRangeKeys)))
     = [RangeKeyIter, RangeDelIter, PointIter]"
proof -
  let ?X = "writeSSTForIngestion testEnv testPoints (Some emptyFrag) (Some testRangeKeys)"
  let ?Y = "writeSSTForIngestion (testEnv\<lparr>fails := addFails\<rparr>) testPoints
      (Some emptyFrag) (Some testRangeKeys)"
  have x: "?X = (fst ?X, snd ?X)" by simp
  have y: "?Y = (fst ?Y, snd ?Y)" by simp
  have r: "\<exists>m. fst ?X = Inr m" by (simp add: test_run_result)
  from writeSST_closes_each_once_first_error_returned[OF x] r
  have 1: "closes (snd ?X) = present (Some emptyFrag) (Some testRangeKeys)"
    and 2: "fst ?X = (case errors (snd ?X) of [] \<Rightarrow> Inr (writer (snd ?X)) | e # es \<Rightarrow> Inl e)"
    by blast+
  from 2 r have 3: "errors (snd ?X) = []" by (auto split: list.splits)
  from writeSST_closes_each_once_first_error_returned[OF y]
  have "fst (pointLoop (testEnv\<lparr>fails := addFails\<rparr>) (pItems testPoints) None
      (initState (Some emptyFrag) (Some testRangeKeys))) \<noteq> None \<longrightarrow>
      closes (snd ?Y) = rev (present (Some emptyFrag) (Some testRangeKeys))"
    by blast
  with test_run_point_loop(2)
  have 4: "closes (snd ?Y) = rev (present (Some emptyFrag) (Some testRangeKeys))"
    by simp
  from 1 3 4 show ?thesis by (simp add: present_def)
qed

text \<open>
  C4, as stated, fails. All three iterators are present and the writer refuses the first
  record: nothing has been closed when the body returns, and the deferred calls close the
  range-key iterator first and the point iterator last.
\<close>

theorem writeSST_close_order_counterexample:
  "closes (snd (writeSSTForIngestion (testEnv\<lparr>fails := addFails\<rparr>) testPoints
      (Some emptyFrag) (Some testRangeKeys))) = [RangeKeyIter, RangeDelIter, PointIter]
   \<and> fst (writeSSTForIngestion (testEnv\<lparr>fails := addFails\<rparr>) testPoints
      (Some emptyFrag) (Some testRangeKeys)) = Inl (Error ''add'')"
  by (simp add: build_eval)

subsection \<open>Sequence numbers and kinds of the records written\<close>

text \<open>
  C5. When the build succeeds, the point records of the table are the surviving records
  of the stream, in order, each under its output key and with the sequence number zero,
  whatever sequence number it had.
\<close>

theorem writeSST_seqnum_zero:
  assumes "writeSSTForIngestion E p rd rk = (Inr m, s)"
  shows "map (\<lambda>(k, v). (UserKey k, SeqNum k)) (points m)
       = map (\<lambda>(k, lv). (outputKey E (UserKey k), SeqNumZero)) (survivors E None (pItems p))"
proof -
  have "(\<lambda>(k, v). (UserKey k, SeqNum k)) (fst (emit E kv), materialise (snd (emit E kv)))
      = (\<lambda>(k, lv). (outputKey E (UserKey k), SeqNumZero)) kv" for kv
    by (cases kv) (simp add: emit_key SeqNum_def)
  with writeSST_success(1)[OF assms] show ?thesis
    by (simp add: comp_def)
qed

theorem writeSST_seqnum_zero_witness:
  "\<exists>m s. writeSSTForIngestion testEnv testPoints (Some emptyFrag) (Some testRangeKeys) = (Inr m, s)
     \<and> map (\<lambda>(k, v). (UserKey k, SeqNum k)) (points m)
       = [(''a'', SeqNumZero), (''b'', SeqNumZero), (''c'', SeqNumZero)]"
proof -
  let ?X = "writeSSTForIngestion testEnv testPoints (Some emptyFrag) (Some testRangeKeys)"
  obtain m where m: "fst ?X = Inr m" by (simp add: test_run_result)
  then have x: "?X = (Inr m, snd ?X)" by (metis prod.collapse)
  from writeSST_seqnum_zero[OF x]
  have "map (\<lambda>(k, v). (UserKey k, SeqNum k)) (points m)
      = [(''a'', SeqNumZero), (''b'', SeqNumZero), (''c'', SeqNumZero)]"
    by (simp add: test_survivors ikey_def) (simp add: build_eval)
  with x show ?thesis
    by (intro exI[of _ m] exI[of _ "snd ?X"] conjI)
qed

text \<open>
  C8. When the build succeeds, a surviving record of the sized-delete kind is written as a
  plain delete with an empty value if the target version is older than the version that
  knows sized deletes; every other surviving record keeps its kind and its value.
\<close>

theorem writeSST_delete_sized:
  assumes "writeSSTForIngestion E p rd rk = (Inr m, s)"
  shows "map (\<lambda>(k, v). (Kind k, (Inr v :: LazyValue))) (points m)
       = map (\<lambda>(k, lv).
           if targetFMV E < FormatDeleteSizedAndObsolete E \<and> Kind k = InternalKeyKindDeleteSized
           then (InternalKeyKindDelete, Inr [])
           else (Kind k, lv)) (survivors E None (pItems p))"
proof -
  have "(\<lambda>(k, v). (Kind k, (Inr v :: LazyValue))) (fst (emit E kv), materialise (snd (emit E kv)))
      = (\<lambda>(k, lv).
           if targetFMV E < FormatDeleteSizedAndObsolete E \<and> Kind k = InternalKeyKindDeleteSized
           then (InternalKeyKindDelete, Inr [])
           else (Kind k, lv)) kv"
    if "kv \<in> set (survivors E None (pItems p))" for kv
  proof -
    from writeSST_success(2)[OF assms] that obtain b where b: "snd (emit E kv) = Inr b" by blast
    obtain k lv where kv: "kv = (k, lv)" by (cases kv)
    from b kv show ?thesis
      by (auto simp: emit_key emit_value Kind_def materialise_def LazyValue_zero_def split: if_splits)
  qed
  with writeSST_success(1)[OF assms] show ?thesis
    by (simp add: comp_def)
qed

theorem writeSST_delete_sized_witness:
  "\<exists>m s. writeSSTForIngestion testEnv testPoints (Some emptyFrag) (Some testRangeKeys) = (Inr m, s)
     \<and> map (\<lambda>(k, v). (Kind k, (Inr v :: LazyValue))) (points m)
       = [(InternalKeyKindSet, Inr ''x''), (InternalKeyKindDelete, Inr []), (InternalKeyKindMerge, Inr ''z'')]"
proof -
  let ?X = "writeSSTForIngestion testEnv testPoints (Some emptyFrag) (Some testRangeKeys)"
  obtain m where m: "fst ?X = Inr m" by (simp add: test_run_result)
  then have x: "?X = (Inr m, snd ?X)" by (metis prod.collapse)
  from writeSST_delete_sized[OF x]
  have "map (\<lambda>(k, v). (Kind k, (Inr v :: LazyValue))) (points m)
       = [(InternalKeyKindSet, Inr ''x''), (InternalKeyKindDelete, Inr []), (InternalKeyKindMerge, Inr ''z'')]"
    by (simp add: test_survivors ikey_def) (simp add: build_eval)
  with x show ?thesis
    by (intro exI[of _ m] exI[of _ "snd ?X"] conjI)
qed

subsection \<open>Range keys\<close>

text \<open>
  C9. The spans handed to the encoder are the collapsed spans of the range-key iterator,
  in order: all of them when the build succeeds, the first ones otherwise. In each, every
  operation has the sequence number zero and the operations are in descending trailer
  order; and where the coalescing returns at most one operation per kind and suffix, so
  does the span that is encoded. \<^verbatim>\<open>rangekey.Coalesce\<close> is a parameter here; its promise is
  the hypothesis.
\<close>

theorem writeSST_range_keys_coalesced:
  assumes "writeSSTForIngestion E p rd rk = (res, s)"
    and "\<forall>sp \<in> set (spansOf rk).
           onePerKindSuffix (Coalesce E (Compare (comparer E)) (Equal (comparer E)) (Keys sp))"
  shows "(\<exists>n. rangeKeys (writer s) = map (collapse E) (take n (spansOf rk)))
    \<and> ((\<exists>m. res = Inr m) \<longrightarrow> rangeKeys (writer s) = map (collapse E) (spansOf rk))
    \<and> (\<forall>sp \<in> set (rangeKeys (writer s)).
          onePerKindSuffix (Keys sp)
          \<and> (\<forall>k \<in> set (Keys sp). KeySeqNum k = SeqNumZero)
          \<and> trailerSorted E (Keys sp))"
proof -
  from writeSST_rangeKeys[OF assms(1)] obtain n where
    n: "rangeKeys (writer s) = map (collapse E) (take n (spansOf rk))" by blast
  have 2: "(\<exists>m. res = Inr m) \<longrightarrow> rangeKeys (writer s) = map (collapse E) (spansOf rk)"
  proof
    assume "\<exists>m. res = Inr m"
    then obtain m where m: "res = Inr m" by blast
    from writeSST_spec(2)[OF assms(1) m] have "m = writer s" by simp
    with writeSST_success(3)[OF assms(1)[unfolded m]]
    show "rangeKeys (writer s) = map (collapse E) (spansOf rk)" by simp
  qed
  have 3: "onePerKindSuffix (Keys sp) \<and> (\<forall>k \<in> set (Keys sp). KeySeqNum k = SeqNumZero)
      \<and> trailerSorted E (Keys sp)" if "sp \<in> set (rangeKeys (writer s))" for sp
  proof -
    from that n obtain sp0 where sp0: "sp0 \<in> set (take n (spansOf rk))" "sp = collapse E sp0"
      by auto
    from sp0(1) have "sp0 \<in> set (spansOf rk)" by (rule in_set_takeD)
    with assms(2) have "onePerKindSuffix (Coalesce E (Compare (comparer E)) (Equal (comparer E)) (Keys sp0))"
      by blast
    from collapse_unique[OF this] collapse_seqnum[of _ E sp0] collapse_sorted[of E sp0] sp0(2)
    show ?thesis by blast
  qed
  from n 2 3 show ?thesis by blast
qed

theorem writeSST_range_keys_coalesced_witness:
  "rangeKeys (writer (snd (writeSSTForIngestion testEnv testPoints (Some emptyFrag) (Some testRangeKeys))))
     = [\<lparr>Start = ''a'', End = ''d'',
         Keys = [rkey 0 InternalKeyKindRangeKeySet ''@5'' ''bar'',
                 rkey 0 InternalKeyKindRangeKeyUnset ''@3'' [],
                 rkey 0 InternalKeyKindRangeKeyDelete [] []]\<rparr>]
   \<and> onePerKindSuffix [rkey 0 InternalKeyKindRangeKeySet ''@5'' ''bar'',
                        rkey 0 InternalKeyKindRangeKeyUnset ''@3'' [],
                        rkey 0 InternalKeyKindRangeKeyDelete [] []]
   \<and> trailerSorted testEnv [rkey 0 InternalKeyKindRangeKeySet ''@5'' ''bar'',
                        rkey 0 InternalKeyKindRangeKeyUnset ''@3'' [],
                        rkey 0 InternalKeyKindRangeKeyDelete [] []]"
proof -
  let ?X = "writeSSTForIngestion testEnv testPoints (Some emptyFrag) (Some testRangeKeys)"
  let ?ks = "[rkey 0 InternalKeyKindRangeKeySet ''@5'' ''bar'',
              rkey 0 InternalKeyKindRangeKeyUnset ''@3'' [],
              rkey 0 InternalKeyKindRangeKeyDelete [] []]"
  have x: "?X = (fst ?X, snd ?X)" by simp
  have r: "\<exists>m. fst ?X = Inr m" by (simp add: test_run_result)
  have h: "\<forall>sp \<in> set (spansOf (Some testRangeKeys)).
      onePerKindSuffix (Coalesce testEnv (Compare (comparer testEnv)) (Equal (comparer testEnv)) (Keys sp))"
    by (simp add: spansOf_def onePerKindSuffix_def build_eval)
  have c: "map (collapse testEnv) (spansOf (Some testRangeKeys)) = [\<lparr>Start = ''a'', End = ''d'', Keys = ?ks\<rparr>]"
    by (simp add: spansOf_def build_eval)
  note t = writeSST_range_keys_coalesced[OF x h]
  from t r have "rangeKeys (writer (snd ?X)) = map (collapse testEnv) (spansOf (Some testRangeKeys))"
    by blast
  with c have 1: "rangeKeys (writer (snd ?X)) = [\<lparr>Start = ''a'', End = ''d'', Keys = ?ks\<rparr>]"
    by simp
  from t have 2: "\<forall>sp \<in> set (rangeKeys (writer (snd ?X))). onePerKindSuffix (Keys sp)
          \<and> (\<forall>k \<in> set (Keys sp). KeySeqNum k = SeqNumZero) \<and> trailerSorted testEnv (Keys sp)"
    by blast
  from 2 have "onePerKindSuffix ?ks \<and> trailerSorted testEnv ?ks"
    unfolding 1 by simp
  with 1 show ?thesis by blast
qed


subsection \<open>Deduplication when the first user key is not empty\<close>

lemma isDuplicate_Some:
  "isDuplicate E (Some l) k = Equal (comparer E) (identityKey E l) (identityKey E k)"
  by (simp add: isDuplicate_def identityKey_def Let_def)

lemma identityLe_trans:
  "lawful (comparer E) \<Longrightarrow> identityLe E a b \<Longrightarrow> identityLe E b d \<Longrightarrow> identityLe E a d"
  unfolding lawful_def identityLe_def by blast

lemma identityLe_refl: "lawful (comparer E) \<Longrightarrow> identityLe E a a"
  unfolding lawful_def identityLe_def by simp

lemma equal_iff_both:
  assumes "lawful (comparer E)"
  shows "Equal (comparer E) (identityKey E a) (identityKey E b)
     \<longleftrightarrow> identityLe E a b \<and> identityLe E b a"
proof -
  let ?x = "identityKey E a" and ?y = "identityKey E b"
  from assms have 1: "Equal (comparer E) ?x ?y \<longleftrightarrow> Compare (comparer E) ?x ?y = 0"
    and 2: "Compare (comparer E) ?x ?y \<le> 0 \<longleftrightarrow> 0 \<le> Compare (comparer E) ?y ?x"
    and 3: "Compare (comparer E) ?y ?x \<le> 0 \<longleftrightarrow> 0 \<le> Compare (comparer E) ?x ?y"
    unfolding lawful_def by blast+
  from 1 2 3 show ?thesis unfolding identityLe_def by linarith
qed

text \<open>The loop remembers the last key it wrote. In a sorted stream, a record equals one
  of the keys written before it exactly when it equals the last of them.\<close>

lemma survivors_Some:
  assumes "lawful (comparer E)"
    and "l \<in> set seen" and "\<forall>s \<in> set seen. identityLe E s l"
    and "\<forall>kv \<in> set items. identityLe E l (UserKey (fst kv))"
    and "sortedByIdentity E items"
  shows "survivors E (Some l) items = firstOfEachIdentity E seen items"
  using assms(2-)
proof (induction items arbitrary: l seen)
  case Nil
  show ?case by simp
next
  case (Cons kv rest)
  let ?k = "UserKey (fst kv)"
  have lk: "identityLe E l ?k" using Cons.prems(3) by simp
  have dup: "list_ex (\<lambda>s. Equal (comparer E) (identityKey E s) (identityKey E ?k)) seen
      \<longleftrightarrow> Equal (comparer E) (identityKey E l) (identityKey E ?k)"
  proof
    assume "list_ex (\<lambda>s. Equal (comparer E) (identityKey E s) (identityKey E ?k)) seen"
    then obtain s where s: "s \<in> set seen" "Equal (comparer E) (identityKey E s) (identityKey E ?k)"
      by (auto simp: list_ex_iff)
    from s(2) have "identityLe E ?k s" by (simp add: equal_iff_both[OF assms(1)])
    moreover from s(1) Cons.prems(2) have "identityLe E s l" by blast
    ultimately have "identityLe E ?k l" by (rule identityLe_trans[OF assms(1)])
    with lk show "Equal (comparer E) (identityKey E l) (identityKey E ?k)"
      by (simp add: equal_iff_both[OF assms(1)])
  next
    assume "Equal (comparer E) (identityKey E l) (identityKey E ?k)"
    with Cons.prems(1) show "list_ex (\<lambda>s. Equal (comparer E) (identityKey E s) (identityKey E ?k)) seen"
      by (auto simp: list_ex_iff)
  qed
  have sorted_rest: "sortedByIdentity E rest"
    using Cons.prems(4) by (simp add: sortedByIdentity_def)
  show ?case
  proof (cases "Equal (comparer E) (identityKey E l) (identityKey E ?k)")
    case True
    from Cons.prems(3) have "\<forall>kv \<in> set rest. identityLe E l (UserKey (fst kv))" by simp
    from Cons.IH[OF Cons.prems(1,2) this sorted_rest] True dup show ?thesis
      by (simp add: isDuplicate_Some)
  next
    case False
    have 1: "?k \<in> set (seen @ [?k])" by simp
    have 2: "\<forall>s \<in> set (seen @ [?k]). identityLe E s ?k"
      using Cons.prems(2) lk identityLe_trans[OF assms(1)] identityLe_refl[OF assms(1)]
      by auto
    have 3: "\<forall>kv' \<in> set rest. identityLe E ?k (UserKey (fst kv'))"
      using Cons.prems(4) by (auto simp: sortedByIdentity_def)
    from Cons.IH[OF 1 2 3 sorted_rest] False dup show ?thesis
      by (simp add: isDuplicate_Some append_reset_def)
  qed
qed

lemma survivors_first_of_each:
  assumes "lawful (comparer E)" and "sortedByIdentity E items" and "firstKeyNotEmpty items"
  shows "survivors E None items = firstOfEachIdentity E [] items"
proof (cases items)
  case Nil
  then show ?thesis by simp
next
  case (Cons kv rest)
  let ?k = "UserKey (fst kv)"
  from assms(3) Cons have ne: "?k \<noteq> []" by (simp add: firstKeyNotEmpty_def)
  have 1: "?k \<in> set [?k]" by simp
  have 2: "\<forall>s \<in> set [?k]. identityLe E s ?k" by (simp add: identityLe_refl[OF assms(1)])
  have 3: "\<forall>kv' \<in> set rest. identityLe E ?k (UserKey (fst kv'))"
    using assms(2) Cons by (auto simp: sortedByIdentity_def)
  have 4: "sortedByIdentity E rest"
    using assms(2) Cons by (simp add: sortedByIdentity_def)
  from survivors_Some[OF assms(1) 1 2 3 4] ne Cons show ?thesis
    by (simp add: isDuplicate_def append_reset_def)
qed

text \<open>
  The comparer of the concrete environment keeps these promises.
\<close>

lemma char_less_of_char: "(x::char) < y \<longleftrightarrow> (of_char x :: nat) < of_char y"
  by (simp add: less_char_def)

lemma bytesCompare_order:
  "bytesCompare a b = (if a = b then 0 else if a < b then - 1 else 1)"
proof (induction a b rule: bytesCompare.induct)
  case 1
  show ?case by simp
next
  case (2 y ys)
  show ?case by simp
next
  case (3 x xs)
  show ?case by simp
next
  case (4 x xs y ys)
  consider "x < y" | "y < x" | "x = y" by (rule linorder_cases)
  then show ?case
  proof cases
    case 1
    then have "x \<noteq> y" by auto
    with 1 show ?thesis by (simp add: char_less_of_char[symmetric])
  next
    case 2
    then have "\<not> x < y" "x \<noteq> y" by auto
    with 2 show ?thesis by (simp add: char_less_of_char[symmetric])
  next
    case 3
    with 4 show ?thesis by (simp add: char_less_of_char[symmetric])
  qed
qed

lemma testComparer_lawful: "lawful testComparer"
  unfolding lawful_def testComparer_def
  by (auto simp: bytesCompare_order simp del: bytesCompare.simps split: if_splits)

text \<open>
  When the comparer keeps its promises, the stream is sorted by identity key and its first
  user key is not empty, a successful build writes exactly the first record of every
  identity key, in the order of the stream: the table has one point record per identity
  key, the first one.
\<close>

theorem writeSST_first_of_each_identity:
  assumes "writeSSTForIngestion E p rd rk = (Inr m, s)"
    and "lawful (comparer E)"
    and "sortedByIdentity E (pItems p)"
    and "firstKeyNotEmpty (pItems p)"
  shows "map (\<lambda>(k, v). (UserKey k, Inr v)) (points m)
       = map (\<lambda>kv. (outputKey E (UserKey (fst kv)), snd (emit E kv)))
           (firstOfEachIdentity E [] (pItems p))"
proof -
  have "(\<lambda>(k, v). (UserKey k, Inr v)) (fst (emit E kv), materialise (snd (emit E kv)))
      = (outputKey E (UserKey (fst kv)), snd (emit E kv))"
    if "kv \<in> set (survivors E None (pItems p))" for kv
  proof -
    from writeSST_success(2)[OF assms(1)] that obtain b where b: "snd (emit E kv) = Inr b" by blast
    obtain k lv where kv: "kv = (k, lv)" by (cases kv)
    from b show ?thesis
      unfolding kv by (simp add: emit_key materialise_def)
  qed
  with writeSST_success(1)[OF assms(1)]
  have "map (\<lambda>(k, v). (UserKey k, Inr v)) (points m)
       = map (\<lambda>kv. (outputKey E (UserKey (fst kv)), snd (emit E kv))) (survivors E None (pItems p))"
    by (simp add: comp_def)
  with survivors_first_of_each[OF assms(2,3,4)] show ?thesis by simp
qed

theorem writeSST_first_of_each_identity_witness:
  "\<exists>m s. writeSSTForIngestion testEnv testPoints (Some emptyFrag) (Some testRangeKeys) = (Inr m, s)
     \<and> map (\<lambda>(k, v). (UserKey k, (Inr v :: LazyValue))) (points m)
       = [(''a'', Inr ''x''), (''b'', Inr []), (''c'', Inr ''z'')]"
proof -
  let ?X = "writeSSTForIngestion testEnv testPoints (Some emptyFrag) (Some testRangeKeys)"
  obtain m where m: "fst ?X = Inr m" by (simp add: test_run_result)
  then have x: "?X = (Inr m, snd ?X)" by (metis prod.collapse)
  have l: "lawful (comparer testEnv)" by (simp add: testEnv_def testComparer_lawful)
  have s: "sortedByIdentity testEnv (pItems testPoints)"
    by (simp add: sortedByIdentity_def identityLe_def identityKey_def build_eval)
  have f: "firstKeyNotEmpty (pItems testPoints)"
    by (simp add: firstKeyNotEmpty_def build_eval)
  from writeSST_first_of_each_identity[OF x l s f]
  have "map (\<lambda>(k, v). (UserKey k, (Inr v :: LazyValue))) (points m)
       = [(''a'', Inr ''x''), (''b'', Inr []), (''c'', Inr ''z'')]"
    by (simp add: emit_value identityKey_def build_eval)
  with x show ?thesis
    by (intro exI[of _ m] exI[of _ "snd ?X"] conjI)
qed


section \<open>Properties of the file system that tracks open files\<close>

lemma tracked_wrap_nil: "wrapOpenFile fs None stack = (None, fs)"
  by (simp add: wrapOpenFile_def)

lemma tracked_wrap_file:
  "fst (wrapOpenFile fs (Some file) stack) = Some (nextAddr fs)"
  "tracked (snd (wrapOpenFile fs (Some file) stack)) = insert (nextAddr fs) (tracked fs)"
  "nextAddr (snd (wrapOpenFile fs (Some file) stack)) = Suc (nextAddr fs)"
  by (auto simp: wrapOpenFile_def tracked_def Let_def update_keys split: if_splits)

lemma tracked_wrap:
  "wrapOpenFile fs f stack = (r, fs') \<Longrightarrow>
     tracked fs' = (case r of None \<Rightarrow> tracked fs | Some a \<Rightarrow> insert a (tracked fs))
     \<and> (r = None) = (f = None)"
proof (cases f)
  case None
  assume "wrapOpenFile fs f stack = (r, fs')"
  with None show ?thesis by (simp add: wrapOpenFile_def)
next
  case (Some fl)
  assume "wrapOpenFile fs f stack = (r, fs')"
  with Some tracked_wrap_file(1,2)[of fs fl stack] show ?thesis by auto
qed

lemma tracked_Close:
  "fst (Close fs f e) = e" "tracked (snd (Close fs f e)) = tracked fs - {f}"
  by (auto simp: Close_def tracked_def delete_keys)

lemma wrap_history:
  "wrapOpenFile fs f0 stack = (f, fs1) \<Longrightarrow>
     tracked fs1 = (case f of None \<Rightarrow> tracked fs | Some a \<Rightarrow> insert a (tracked fs))"
  using tracked_wrap[of fs f0 stack f fs1] by simp

lemma exec_tracked:
  "exec fs c = (r, fs') \<Longrightarrow> tracked fs' = notYetClosed (tracked fs) [(c, r)]"
proof (cases c)
  case (CallClose f e)
  assume "exec fs c = (r, fs')"
  with CallClose have "r = RetError e" "fs' = snd (Close fs f e)"
    by (simp_all add: Close_def)
  with CallClose tracked_Close(2)[of fs f e] show ?thesis
    by simp
next
  case (CallPassThrough e)
  assume "exec fs c = (r, fs')"
  with CallPassThrough have "r = RetError e" "fs' = fs" by simp_all
  with CallPassThrough show ?thesis by simp
next
  case (CallCreate inner stack)
  assume x: "exec fs c = (r, fs')"
  obtain f fs1 where w: "wrapOpenFile fs (fst inner) stack = (f, fs1)"
    by (cases "wrapOpenFile fs (fst inner) stack")
  from x CallCreate w have r: "r = RetFile f (snd inner)" and f: "fs' = fs1"
    by (simp_all add: Create_def)
  from wrap_history[OF w] show ?thesis
    by (cases f) (simp_all add: r f CallCreate)
next
  case (CallOpen inner stack)
  assume x: "exec fs c = (r, fs')"
  obtain f fs1 where w: "wrapOpenFile fs (fst inner) stack = (f, fs1)"
    by (cases "wrapOpenFile fs (fst inner) stack")
  from x CallOpen w have r: "r = RetFile f (snd inner)" and f: "fs' = fs1"
    by (simp_all add: Open_def)
  from wrap_history[OF w] show ?thesis
    by (cases f) (simp_all add: r f CallOpen)
next
  case (CallOpenReadWrite inner stack)
  assume x: "exec fs c = (r, fs')"
  obtain f fs1 where w: "wrapOpenFile fs (fst inner) stack = (f, fs1)"
    by (cases "wrapOpenFile fs (fst inner) stack")
  from x CallOpenReadWrite w have r: "r = RetFile f (snd inner)" and f: "fs' = fs1"
    by (simp_all add: OpenReadWrite_def)
  from wrap_history[OF w] show ?thesis
    by (cases f) (simp_all add: r f CallOpenReadWrite)
next
  case (CallOpenDir inner stack)
  assume x: "exec fs c = (r, fs')"
  obtain f fs1 where w: "wrapOpenFile fs (fst inner) stack = (f, fs1)"
    by (cases "wrapOpenFile fs (fst inner) stack")
  from x CallOpenDir w have r: "r = RetFile f (snd inner)" and f: "fs' = fs1"
    by (simp_all add: OpenDir_def)
  from wrap_history[OF w] show ?thesis
    by (cases f) (simp_all add: r f CallOpenDir)
next
  case (CallReuseForWrite inner stack)
  assume x: "exec fs c = (r, fs')"
  obtain f fs1 where w: "wrapOpenFile fs (fst inner) stack = (f, fs1)"
    by (cases "wrapOpenFile fs (fst inner) stack")
  from x CallReuseForWrite w have r: "r = RetFile f (snd inner)" and f: "fs' = fs1"
    by (simp_all add: ReuseForWrite_def)
  from wrap_history[OF w] show ?thesis
    by (cases f) (simp_all add: r f CallReuseForWrite)
qed

lemma notYetClosed_step:
  "notYetClosed S ((c, r) # h) = notYetClosed (notYetClosed S [(c, r)]) h"
  by (cases "(S, [(c, r)])" rule: notYetClosed.cases) auto

lemma run_tracked:
  "run fs cs = (h, fs') \<Longrightarrow> tracked fs' = notYetClosed (tracked fs) h"
proof (induction cs arbitrary: fs h)
  case Nil
  then show ?case by simp
next
  case (Cons c cs)
  obtain r fs1 where e: "exec fs c = (r, fs1)" by (cases "exec fs c")
  obtain h1 fs2 where r: "run fs1 cs = (h1, fs2)" by (cases "run fs1 cs")
  from Cons.prems e r have h: "h = (c, r) # h1" and f: "fs2 = fs'" by simp_all
  from Cons.IH[OF r[unfolded f]] exec_tracked[OF e]
  have "tracked fs' = notYetClosed (notYetClosed (tracked fs) [(c, r)]) h1"
    by simp
  with h show ?case by (simp only: notYetClosed_step[of "tracked fs" c r h1])
qed

lemma showNat_nonempty: "showNat n \<noteq> []"
  by (subst showNat.simps) simp

lemma dumpStacks_nothing_iff: "dumpStacks fs = [] \<longleftrightarrow> tracked fs = {}"
  by (auto simp: dumpStacks_def tracked_def showNat_nonempty)

text \<open>A new handle is different from every handle allocated before.\<close>

lemma wrap_fresh:
  "wrapOpenFile fs f stack = (r, fs') \<Longrightarrow> \<forall>a \<in> tracked fs. a < nextAddr fs \<Longrightarrow>
     \<forall>a \<in> tracked fs'. a < nextAddr fs'"
proof (cases f)
  case None
  assume "wrapOpenFile fs f stack = (r, fs')" "\<forall>a \<in> tracked fs. a < nextAddr fs"
  with None show ?thesis by (simp add: wrapOpenFile_def)
next
  case (Some fl)
  assume "wrapOpenFile fs f stack = (r, fs')" "\<forall>a \<in> tracked fs. a < nextAddr fs"
  with Some tracked_wrap_file(2,3)[of fs fl stack] show ?thesis by auto
qed

lemma exec_fresh:
  "exec fs c = (r, fs') \<Longrightarrow> \<forall>a \<in> tracked fs. a < nextAddr fs \<Longrightarrow>
     \<forall>a \<in> tracked fs'. a < nextAddr fs'"
proof (cases c)
  case (CallClose f e)
  assume "exec fs c = (r, fs')" and fr: "\<forall>a \<in> tracked fs. a < nextAddr fs"
  with CallClose have f: "fs' = snd (Close fs f e)" by (simp add: Close_def)
  have "nextAddr (snd (Close fs f e)) = nextAddr fs" by (simp add: Close_def)
  with fr tracked_Close(2)[of fs f e] f show ?thesis by simp
next
  case (CallPassThrough e)
  assume "exec fs c = (r, fs')" "\<forall>a \<in> tracked fs. a < nextAddr fs"
  with CallPassThrough show ?thesis by simp
next
  case (CallCreate inner stack)
  assume x: "exec fs c = (r, fs')" and fr: "\<forall>a \<in> tracked fs. a < nextAddr fs"
  obtain f fs1 where w: "wrapOpenFile fs (fst inner) stack = (f, fs1)"
    by (cases "wrapOpenFile fs (fst inner) stack")
  from x CallCreate w have f: "fs' = fs1"
    by (simp add: Create_def)
  from wrap_fresh[OF w fr] f show ?thesis by simp
next
  case (CallOpen inner stack)
  assume x: "exec fs c = (r, fs')" and fr: "\<forall>a \<in> tracked fs. a < nextAddr fs"
  obtain f fs1 where w: "wrapOpenFile fs (fst inner) stack = (f, fs1)"
    by (cases "wrapOpenFile fs (fst inner) stack")
  from x CallOpen w have f: "fs' = fs1"
    by (simp add: Open_def)
  from wrap_fresh[OF w fr] f show ?thesis by simp
next
  case (CallOpenReadWrite inner stack)
  assume x: "exec fs c = (r, fs')" and fr: "\<forall>a \<in> tracked fs. a < nextAddr fs"
  obtain f fs1 where w: "wrapOpenFile fs (fst inner) stack = (f, fs1)"
    by (cases "wrapOpenFile fs (fst inner) stack")
  from x CallOpenReadWrite w have f: "fs' = fs1"
    by (simp add: OpenReadWrite_def)
  from wrap_fresh[OF w fr] f show ?thesis by simp
next
  case (CallOpenDir inner stack)
  assume x: "exec fs c = (r, fs')" and fr: "\<forall>a \<in> tracked fs. a < nextAddr fs"
  obtain f fs1 where w: "wrapOpenFile fs (fst inner) stack = (f, fs1)"
    by (cases "wrapOpenFile fs (fst inner) stack")
  from x CallOpenDir w have f: "fs' = fs1"
    by (simp add: OpenDir_def)
  from wrap_fresh[OF w fr] f show ?thesis by simp
next
  case (CallReuseForWrite inner stack)
  assume x: "exec fs c = (r, fs')" and fr: "\<forall>a \<in> tracked fs. a < nextAddr fs"
  obtain f fs1 where w: "wrapOpenFile fs (fst inner) stack = (f, fs1)"
    by (cases "wrapOpenFile fs (fst inner) stack")
  from x CallReuseForWrite w have f: "fs' = fs1"
    by (simp add: ReuseForWrite_def)
  from wrap_fresh[OF w fr] f show ?thesis by simp
qed

lemma run_fresh:
  "run fs cs = (h, fs') \<Longrightarrow> \<forall>a \<in> tracked fs. a < nextAddr fs \<Longrightarrow> \<forall>a \<in> tracked fs'. a < nextAddr fs'"
proof (induction cs arbitrary: fs h)
  case Nil
  then show ?case by simp
next
  case (Cons c cs)
  obtain r fs1 where e: "exec fs c = (r, fs1)" by (cases "exec fs c")
  obtain h1 fs2 where r: "run fs1 cs = (h1, fs2)" by (cases "run fs1 cs")
  from Cons.prems(1) e r have f: "fs2 = fs'" by simp
  from exec_fresh[OF e Cons.prems(2)] have "\<forall>a \<in> tracked fs1. a < nextAddr fs1" by blast
  from Cons.IH[OF r[unfolded f] this] show ?case .
qed

lemma openFiles_eval:
  "tracked (snd (run WithOpenFileTracking testCalls)) = {1}"
  by (simp add: testCalls_def WithOpenFileTracking_def Create_def Open_def OpenDir_def Close_def
      wrapOpenFile_def tracked_def Let_def AList.update.simps AList.delete_eq)

text \<open>
  C10. After any sequence of calls on a new wrapper, the tracked set is the set of the
  files that were returned, were not nil and have not been closed since. A nil file is
  not tracked; a file that is not nil gets a new handle, which is tracked; \<^verbatim>\<open>Close\<close>
  returns the error of the inner close and removes the closed file and no other; and
  \<^verbatim>\<open>dumpStacks\<close> writes nothing exactly when the tracked set is empty.
\<close>

theorem openFiles_tracked_exactly_open:
  assumes "run WithOpenFileTracking cs = (h, fs)"
  shows "tracked fs = notYetClosed {} h
    \<and> (dumpStacks fs = [] \<longleftrightarrow> tracked fs = {})
    \<and> (\<forall>stack. wrapOpenFile fs None stack = (None, fs))
    \<and> (\<forall>file stack. \<exists>a fs'. wrapOpenFile fs (Some file) stack = (Some a, fs')
          \<and> a \<notin> tracked fs \<and> tracked fs' = insert a (tracked fs))
    \<and> (\<forall>f e. \<exists>fs'. Close fs f e = (e, fs') \<and> tracked fs' = tracked fs - {f})"
proof -
  have t0: "tracked WithOpenFileTracking = {}"
    by (simp add: tracked_def WithOpenFileTracking_def)
  from run_tracked[OF assms] t0 have 1: "tracked fs = notYetClosed {} h" by simp
  from run_fresh[OF assms] t0 have fresh: "\<forall>a \<in> tracked fs. a < nextAddr fs" by simp
  have 4: "\<exists>a fs'. wrapOpenFile fs (Some fl) stack = (Some a, fs')
          \<and> a \<notin> tracked fs \<and> tracked fs' = insert a (tracked fs)" for fl stack
  proof -
    from fresh have "nextAddr fs \<notin> tracked fs" by auto
    with tracked_wrap_file(1,2)[of fs fl stack] show ?thesis
      by (cases "wrapOpenFile fs (Some fl) stack") auto
  qed
  have 5: "\<exists>fs'. Close fs f e = (e, fs') \<and> tracked fs' = tracked fs - {f}" for f e
    using tracked_Close[of fs f e] by (cases "Close fs f e") auto
  from 1 dumpStacks_nothing_iff[of fs] tracked_wrap_nil[of fs] 4 5 show ?thesis by blast
qed

theorem openFiles_tracked_exactly_open_witness:
  "tracked (snd (run WithOpenFileTracking testCalls)) = {1}
   \<and> notYetClosed {} (fst (run WithOpenFileTracking testCalls)) = {1}
   \<and> dumpStacks (snd (run WithOpenFileTracking testCalls)) \<noteq> []"
proof -
  let ?X = "run WithOpenFileTracking testCalls"
  have x: "?X = (fst ?X, snd ?X)" by simp
  from openFiles_tracked_exactly_open[OF x] openFiles_eval show ?thesis by simp
qed


section \<open>Properties of the bounds constrainer and of virtual tables\<close>

text \<open>The model of the constrainer gives the answers of the transcript (lines 51 to 102),
  where the virtual bounds are \<open>[b, c]\<close>.\<close>

lemma constrain_transcript:
  "constrainBounds (query ''a'' ''bb'' False) testBounds = query ''b'' ''bb'' False"
  "constrainBounds (query ''a'' ''bb'' True) testBounds = query ''b'' ''bb'' True"
  "constrainBounds (query ''bb'' ''c'' False) testBounds = query ''bb'' ''c'' False"
  "constrainBounds (query ''bb'' ''c'' True) testBounds = query ''bb'' ''c'' True"
  "constrainBounds (query ''bb'' ''e'' False) testBounds = query ''bb'' ''c'' True"
  "constrainBounds (query ''bb'' ''e'' True) testBounds = query ''bb'' ''c'' True"
  "constrainBounds (query ''bb'' ''bbb'' False) testBounds = query ''bb'' ''bbb'' False"
  "constrainBounds (query ''a'' ''d'' False) testBounds = query ''b'' ''c'' True"
  "constrainBounds (query ''a'' ''aa'' False) testBounds = query ''b'' ''aa'' False"
  by (simp_all add: constrainBounds_def query_def testBounds_def)

lemma constrain_start: "bStart (constrainBounds q v) = max (bStart q) (bStart v)"
  by (simp add: constrainBounds_def Let_def)

lemma constrain_clamped:
  "bEnd v < bEnd q \<Longrightarrow> bEnd (constrainBounds q v) = bEnd v \<and> bEndInclusive (constrainBounds q v)"
  by (auto simp: constrainBounds_def Let_def)

lemma constrain_kept:
  "\<not> bEnd v < bEnd q \<Longrightarrow>
     bEnd (constrainBounds q v) = bEnd q \<and> bEndInclusive (constrainBounds q v) = bEndInclusive q"
  by (auto simp: constrainBounds_def Let_def)

lemma constrain_end_le: "bEnd (constrainBounds q v) \<le> bEnd v"
proof (cases "bEnd v < bEnd q")
  case True
  from constrain_clamped[OF True] show ?thesis by simp
next
  case False
  from constrain_kept[OF False] False show ?thesis by simp
qed

lemma constrain_subset:
  assumes "bEndInclusive v" and "inBounds (constrainBounds q v) k"
  shows "inBounds v k"
proof (cases "bEnd v < bEnd q")
  case True
  from constrain_clamped[OF True] constrain_start[where q=q and v=v] assms show ?thesis
    by (auto simp: inBounds_def)
next
  case False
  from constrain_kept[OF False] constrain_start[where q=q and v=v] assms False show ?thesis
    by (auto simp: inBounds_def)
qed

text \<open>The other reading of the constrainer gives the same nine answers, so the transcript
  does not decide between the two.\<close>

lemma constrainOwn_transcript:
  "constrainOwnFlag (query ''a'' ''bb'' False) testBounds = query ''b'' ''bb'' False"
  "constrainOwnFlag (query ''a'' ''bb'' True) testBounds = query ''b'' ''bb'' True"
  "constrainOwnFlag (query ''bb'' ''c'' False) testBounds = query ''bb'' ''c'' False"
  "constrainOwnFlag (query ''bb'' ''c'' True) testBounds = query ''bb'' ''c'' True"
  "constrainOwnFlag (query ''bb'' ''e'' False) testBounds = query ''bb'' ''c'' True"
  "constrainOwnFlag (query ''bb'' ''e'' True) testBounds = query ''bb'' ''c'' True"
  "constrainOwnFlag (query ''bb'' ''bbb'' False) testBounds = query ''bb'' ''bbb'' False"
  "constrainOwnFlag (query ''a'' ''d'' False) testBounds = query ''b'' ''c'' True"
  "constrainOwnFlag (query ''a'' ''aa'' False) testBounds = query ''b'' ''aa'' False"
  by (simp_all add: constrainOwnFlag_def query_def testBounds_def)

text \<open>The two readings agree wherever the virtual end is inclusive, and everywhere on the
  start and the end key; they differ only in the flag of an end clamped to an exclusive
  virtual end.\<close>

lemma constrainOwn_agree: "bEndInclusive v \<Longrightarrow> constrainOwnFlag q v = constrainBounds q v"
  by (simp add: constrainOwnFlag_def constrainBounds_def Let_def)

lemma constrainOwn_agree_within:
  "bEnd q < bEnd v \<or> (bEnd q = bEnd v \<and> \<not> bEndInclusive q)
     \<Longrightarrow> constrainOwnFlag q v = constrainBounds q v"
  by (auto simp: constrainOwnFlag_def constrainBounds_def Let_def)

lemma constrainOwn_start: "bStart (constrainOwnFlag q v) = bStart (constrainBounds q v)"
  by (simp add: constrainOwnFlag_def constrainBounds_def Let_def)

lemma constrainOwn_end: "bEnd (constrainOwnFlag q v) = bEnd (constrainBounds q v)"
  by (simp add: constrainOwnFlag_def constrainBounds_def Let_def)

lemma constrainOwn_in_both:
  assumes "inBounds (constrainOwnFlag q v) k"
  shows "inBounds q k \<and> inBounds v k"
proof (cases "bEnd q < bEnd v \<or> (bEnd q = bEnd v \<and> (bEndInclusive q \<longrightarrow> bEndInclusive v))")
  case True
  then have "constrainOwnFlag q v
      = \<lparr>bStart = max (bStart q) (bStart v), bEnd = bEnd q, bEndInclusive = bEndInclusive q\<rparr>"
    by (simp add: constrainOwnFlag_def Let_def)
  with assms True show ?thesis
    by (auto simp: inBounds_def)
next
  case False
  then have "constrainOwnFlag q v
      = \<lparr>bStart = max (bStart q) (bStart v), bEnd = bEnd v, bEndInclusive = bEndInclusive v\<rparr>"
    by (simp add: constrainOwnFlag_def Let_def)
  with assms False show ?thesis
    by (auto simp: inBounds_def)
qed

text \<open>
  C3, as amended. Under either reading of the constrainer: the effective start is the
  larger of the two starts; the end is clamped to the virtual end exactly when the query
  end exceeds the virtual end, and is the query end otherwise; the effective start is
  never before the virtual start and the effective end never after the virtual end.
  Whenever the virtual end is inclusive, or the query end is within the virtual range
  (before the virtual end, or at it and exclusive), the flag is forced to true exactly
  when the end is clamped and is the flag of the query otherwise, and every key of the
  effective bounds is a key of the virtual bounds. What is left open is the flag of the
  result where the query end exceeds an exclusive virtual end.
\<close>

theorem constrainBounds_clamps:
  assumes "e = constrainBounds q v \<or> e = constrainOwnFlag q v"
  shows "bStart e = max (bStart q) (bStart v)
   \<and> (bEnd v < bEnd q \<longrightarrow> bEnd e = bEnd v)
   \<and> (\<not> bEnd v < bEnd q \<longrightarrow> bEnd e = bEnd q)
   \<and> bStart v \<le> bStart e
   \<and> bEnd e \<le> bEnd v
   \<and> (bEndInclusive v \<or> bEnd q < bEnd v \<or> (bEnd q = bEnd v \<and> \<not> bEndInclusive q) \<longrightarrow>
         (bEnd v < bEnd q \<longrightarrow> bEndInclusive e)
         \<and> (\<not> bEnd v < bEnd q \<longrightarrow> bEndInclusive e = bEndInclusive q)
         \<and> (\<forall>k. inBounds e k \<longrightarrow> inBounds v k))"
proof -
  let ?c = "constrainBounds q v"
  from assms have s: "bStart e = bStart ?c" and n: "bEnd e = bEnd ?c"
    by (auto simp: constrainOwn_start constrainOwn_end)
  have 1: "bStart e = max (bStart q) (bStart v)"
    by (simp add: s constrain_start)
  have 2: "bEnd v < bEnd q \<longrightarrow> bEnd e = bEnd v"
    using constrain_clamped[where q=q and v=v] by (simp add: n)
  have 3: "\<not> bEnd v < bEnd q \<longrightarrow> bEnd e = bEnd q"
    using constrain_kept[where q=q and v=v] by (simp add: n)
  have 4: "bStart v \<le> bStart e"
    by (simp add: 1)
  have 5: "bEnd e \<le> bEnd v"
    by (simp add: n constrain_end_le)
  have 6: "(bEnd v < bEnd q \<longrightarrow> bEndInclusive e)
      \<and> (\<not> bEnd v < bEnd q \<longrightarrow> bEndInclusive e = bEndInclusive q)
      \<and> (\<forall>k. inBounds e k \<longrightarrow> inBounds v k)"
    if h: "bEndInclusive v \<or> bEnd q < bEnd v \<or> (bEnd q = bEnd v \<and> \<not> bEndInclusive q)"
  proof -
    from h have same: "constrainOwnFlag q v = ?c"
      using constrainOwn_agree[where q=q and v=v] constrainOwn_agree_within[where q=q and v=v]
      by blast
    with assms have e: "e = ?c" and o: "e = constrainOwnFlag q v" by auto
    from o constrainOwn_in_both[where q=q and v=v] have "\<forall>k. inBounds e k \<longrightarrow> inBounds v k"
      by blast
    with constrain_clamped[where q=q and v=v] constrain_kept[where q=q and v=v]
    show ?thesis unfolding e by blast
  qed
  from 1 2 3 4 5 6 show ?thesis by blast
qed

theorem constrainBounds_clamps_witness:
  "constrainBounds (query ''bb'' ''e'' False) testBounds = query ''bb'' ''c'' True
   \<and> constrainOwnFlag (query ''bb'' ''e'' False) testBounds = query ''bb'' ''c'' True
   \<and> inBounds testBounds ''c''"
proof -
  let ?q = "query ''bb'' ''e'' False"
  have v: "bEndInclusive testBounds" "bEnd testBounds < bEnd ?q"
    by (simp_all add: testBounds_def query_def)
  have r: "e = query ''bb'' ''c'' True \<and> inBounds testBounds ''c''"
    if e: "e = constrainBounds ?q testBounds \<or> e = constrainOwnFlag ?q testBounds" for e
  proof -
    from constrainBounds_clamps[OF e] v
    have f: "bStart e = max (bStart ?q) (bStart testBounds)" "bEnd e = bEnd testBounds"
      "bEndInclusive e" and sub: "\<forall>k. inBounds e k \<longrightarrow> inBounds testBounds k"
      by blast+
    from f have eq: "e = query ''bb'' ''c'' True"
      by (intro Bounds.equality) (simp_all add: testBounds_def query_def)
    then have "inBounds e ''c''" by (simp add: query_def inBounds_def)
    with sub eq show ?thesis by blast
  qed
  from r[of "constrainBounds ?q testBounds"] r[of "constrainOwnFlag ?q testBounds"]
  show ?thesis by simp
qed

text \<open>The claim contradicts itself where the virtual end is exclusive and the query end
  exceeds it: no function of the two bounds pairs has the start, the clamped inclusive end
  and the subset property that the claim asks for, whatever the code of the constrainer
  does.\<close>

lemma constrain_claim_contradictory:
  "\<not> (\<exists>f :: bytes Bounds \<Rightarrow> bytes Bounds \<Rightarrow> bytes Bounds. \<forall>q v.
        bStart (f q v) = max (bStart q) (bStart v)
        \<and> (bEnd v < bEnd q \<longrightarrow> bEnd (f q v) = bEnd v \<and> bEndInclusive (f q v))
        \<and> (\<forall>k. inBounds (f q v) k \<longrightarrow> inBounds v k))"
proof
  assume "\<exists>f :: bytes Bounds \<Rightarrow> bytes Bounds \<Rightarrow> bytes Bounds. \<forall>q v.
        bStart (f q v) = max (bStart q) (bStart v)
        \<and> (bEnd v < bEnd q \<longrightarrow> bEnd (f q v) = bEnd v \<and> bEndInclusive (f q v))
        \<and> (\<forall>k. inBounds (f q v) k \<longrightarrow> inBounds v k)"
  then obtain f :: "bytes Bounds \<Rightarrow> bytes Bounds \<Rightarrow> bytes Bounds" where f: "\<And>q v.
        bStart (f q v) = max (bStart q) (bStart v)
        \<and> (bEnd v < bEnd q \<longrightarrow> bEnd (f q v) = bEnd v \<and> bEndInclusive (f q v))
        \<and> (\<forall>k. inBounds (f q v) k \<longrightarrow> inBounds v k)"
    by blast
  let ?q = "query ''a'' ''z'' False"
  let ?v = "query ''b'' ''e'' False"
  have lt: "bEnd ?v < bEnd ?q" by (simp add: query_def)
  from f[of ?q ?v] lt have s: "bStart (f ?q ?v) = ''b''" and n: "bEnd (f ?q ?v) = ''e''"
    and i: "bEndInclusive (f ?q ?v)" and sub: "inBounds (f ?q ?v) ''e'' \<longrightarrow> inBounds ?v ''e''"
    by (simp_all add: query_def)
  from s n i have "inBounds (f ?q ?v) ''e''" by (simp add: inBounds_def)
  with sub have "inBounds ?v ''e''" by blast
  then show False by (simp add: query_def inBounds_def)
qed

text \<open>
  C3, as stated, fails for the query \<open>[a, z)\<close> and a virtual table with the exclusive end
  \<open>[b, e)\<close>, where the query end exceeds the virtual end. The bounds that the claim asks
  for, \<open>[b, e]\<close>, hold the key \<open>e\<close>, which is not a key of the virtual bounds. The
  constrainer that forces the flag to true returns these bounds, which are not a subset of
  the virtual bounds; the constrainer that returns a subset does not force the flag to
  true.
\<close>

theorem constrainBounds_subset_counterexample:
  "bEnd (query ''b'' ''e'' False) < bEnd (query ''a'' ''z'' False)
   \<and> constrainBounds (query ''a'' ''z'' False) (query ''b'' ''e'' False) = query ''b'' ''e'' True
   \<and> inBounds (query ''b'' ''e'' True) ''e''
   \<and> \<not> inBounds (query ''b'' ''e'' False) ''e''
   \<and> constrainOwnFlag (query ''a'' ''z'' False) (query ''b'' ''e'' False) = query ''b'' ''e'' False
   \<and> \<not> bEndInclusive (constrainOwnFlag (query ''a'' ''z'' False) (query ''b'' ''e'' False))"
  by (simp add: constrainBounds_def constrainOwnFlag_def query_def inBounds_def)

subsection \<open>Bounds that do not overlap\<close>

lemma overlaps_iff: "overlaps q v \<longleftrightarrow> (\<exists>k. inBounds q k \<and> inBounds v k)"
proof
  assume "overlaps q v"
  then show "\<exists>k. inBounds q k \<and> inBounds v k"
    by (auto simp: overlaps_def)
next
  assume "\<exists>k. inBounds q k \<and> inBounds v k"
  then obtain k where k: "inBounds q k" "inBounds v k" by blast
  then have m: "max (bStart q) (bStart v) \<le> k" by (simp add: inBounds_def)
  from k m show "overlaps q v"
    by (auto simp: overlaps_def inBounds_def max_def split: if_splits)
qed

lemma constrain_in_both:
  assumes "inBounds (constrainBounds q v) k" and "k < bEnd v \<or> bEndInclusive v"
  shows "inBounds q k \<and> inBounds v k"
proof (cases "bEnd v < bEnd q")
  case True
  from constrain_clamped[OF True] constrain_start[where q=q and v=v] assms True show ?thesis
    by (auto simp: inBounds_def)
next
  case False
  from constrain_kept[OF False] constrain_start[where q=q and v=v] assms False show ?thesis
    by (auto simp: inBounds_def)
qed

lemma constrain_only_end:
  assumes "\<not> overlaps q v" and "inBounds (constrainBounds q v) k"
  shows "k = bEnd v \<and> \<not> bEndInclusive v"
proof -
  from assms(1) have n: "\<not> (inBounds q k \<and> inBounds v k)" by (auto simp: overlaps_iff)
  with constrain_in_both[OF assms(2)] have 1: "\<not> k < bEnd v" "\<not> bEndInclusive v" by blast+
  have "bEnd (constrainBounds q v) \<le> bEnd v"
    by (rule constrain_end_le)
  with assms(2) have "k \<le> bEnd v"
    by (auto simp: inBounds_def)
  with 1 show ?thesis by auto
qed

lemma at_in_set: "at rs pos = Some r \<Longrightarrow> r \<in> set rs"
  by (auto simp: at_def split: if_splits)

lemma iterate_in_set: "Some r \<in> set (iterate rs pos ops) \<Longrightarrow> r \<in> set rs"
proof (induction ops arbitrary: pos)
  case Nil
  then show ?case by simp
next
  case (Cons op ops)
  from Cons.prems have "at rs (position rs pos op) = Some r
      \<or> Some r \<in> set (iterate rs (position rs pos op) ops)"
    by auto
  then show ?case
    using at_in_set Cons.IH by blast
qed




text \<open>The records that the point iterator of the view can reach are the same under either
  reading: the only key on which the readings differ is an exclusive end boundary, whose
  records the view suppresses.\<close>

lemma visiblePoints_either_reading:
  "visiblePoints vt (Some q)
     = filter (\<lambda>r. inBounds (constrainOwnFlag q (virtualBounds vt)) (UserKey (fst r))
                    \<and> \<not> suppressed vt r) (backingPoints vt)"
proof (cases "bEndInclusive (virtualBounds vt)")
  case True
  then show ?thesis
    by (simp add: visiblePoints_def effectiveBounds_def constrainOwn_agree)
next
  case False
  let ?v = "virtualBounds vt"
  have "(inBounds (constrainBounds q ?v) (UserKey (fst r)) \<and> \<not> suppressed vt r)
      = (inBounds (constrainOwnFlag q ?v) (UserKey (fst r)) \<and> \<not> suppressed vt r)" for r
  proof (cases "suppressed vt r")
    case True
    then show ?thesis by simp
  next
    case ns: False
    from False ns have ne: "UserKey (fst r) \<noteq> bEnd ?v"
      by (simp add: suppressed_def virtualBounds_def)
    have "inBounds (constrainBounds q ?v) (UserKey (fst r))
        = inBounds (constrainOwnFlag q ?v) (UserKey (fst r))"
      using ne by (auto simp: constrainBounds_def constrainOwnFlag_def Let_def inBounds_def)
    then show ?thesis by simp
  qed
  then show ?thesis
    by (simp add: visiblePoints_def effectiveBounds_def)
qed


lemmas virtual_eval =
  constrainBounds_def query_def testBounds_def inBounds_def overlaps_def scanKeys_def
  iter_def citer_def visiblePoints_def sentinelTable_def effectiveBounds_def virtualBounds_def
  suppressed_def IsExclusiveSentinel_def SeqNum_def MakeTrailer_def ikey_def rkey_def
  SeqNumMax_def position_def at_def firstGE_def scanRangeDel_def truncateSpan_def
  List.map_filter_def


text \<open>Where the effective start equals the effective end, the effective bounds hold no key,
  or their one key is the exclusive end boundary of the virtual table, which is not a key
  of the table; the second case arises only under the reading that forces the flag of a
  clamped end to true.\<close>

lemma no_overlap_equal_ends:
  assumes "\<not> overlaps q v" and "e = constrainBounds q v \<or> e = constrainOwnFlag q v"
    and "bEnd e = bStart e"
  shows "\<not> bEndInclusive e \<or> (e = constrainBounds q v \<and> bEnd e = bEnd v \<and> \<not> bEndInclusive v)"
proof (cases "bEndInclusive e")
  case False
  then show ?thesis by simp
next
  case True
  with assms(3) have i: "inBounds e (bEnd e)" by (simp add: inBounds_def)
  from assms(2) show ?thesis
  proof
    assume e: "e = constrainBounds q v"
    with constrain_only_end[OF assms(1)] i have "bEnd e = bEnd v \<and> \<not> bEndInclusive v" by blast
    with e show ?thesis by blast
  next
    assume "e = constrainOwnFlag q v"
    with constrainOwn_in_both i have "inBounds q (bEnd e) \<and> inBounds v (bEnd e)" by blast
    with assms(1) show ?thesis by (auto simp: overlaps_iff)
  qed
qed


subsection \<open>The exclusive sentinel\<close>

text \<open>The model gives the answers of test 6 of the transcript (lines 590 to 629): the
  iterator, the compaction iterator and the scan of the range deletions.\<close>

lemma sentinel_transcript:
  "iter sentinelTable None [First, Next, Next, SeekLT ''f''] =
     [Some (ikey ''a'' 1 InternalKeyKindSet, ''a''), Some (ikey ''d'' 2 InternalKeyKindSet, ''d''),
      None, Some (ikey ''d'' 2 InternalKeyKindSet, ''d'')]"
  "citer sentinelTable =
     [(ikey ''a'' 1 InternalKeyKindSet, ''a''), (ikey ''d'' 2 InternalKeyKindSet, ''d'')]"
  "scanRangeDel sentinelTable =
     [\<lparr>Start = ''d'', End = ''e'', Keys = [rkey 4 InternalKeyKindRangeDelete [] []]\<rparr>]"
  by (simp_all add: virtual_eval)

lemma truncateSpan_at_end:
  assumes "End sp = hi" and "max lo (Start sp) < End sp"
  shows "truncateSpan lo hi sp = Some (sp\<lparr>Start := max lo (Start sp)\<rparr>)"
  using assms by (simp add: truncateSpan_def Let_def)

text \<open>
  C2. For a virtual table whose end boundary is an exclusive sentinel, no point record
  with the user key of that boundary is reachable: not by any sequence of positioning
  primitives under any bounds of the caller, and not by the compaction iterator. A range
  deletion of the backing table that ends at the boundary, and of which something is left
  above the lower boundary, is still reported as ending at the boundary.
\<close>

theorem sentinel_key_never_surfaces:
  assumes "IsExclusiveSentinel (upper vt)"
  shows "(\<forall>r. Some r \<in> set (iter vt q ops) \<longrightarrow> UserKey (fst r) \<noteq> UserKey (upper vt))
   \<and> (\<forall>r \<in> set (citer vt). UserKey (fst r) \<noteq> UserKey (upper vt))
   \<and> (\<forall>sp \<in> set (backingRangeDels vt).
         End sp = UserKey (upper vt) \<and> max (UserKey (lower vt)) (Start sp) < End sp \<longrightarrow>
         sp\<lparr>Start := max (UserKey (lower vt)) (Start sp)\<rparr> \<in> set (scanRangeDel vt))"
proof -
  have v: "UserKey (fst r) \<noteq> UserKey (upper vt)" if "r \<in> set (visiblePoints vt q')" for r q'
    using that assms by (auto simp: visiblePoints_def suppressed_def)
  have 1: "UserKey (fst r) \<noteq> UserKey (upper vt)" if "Some r \<in> set (iter vt q ops)" for r
    using that iterate_in_set[of r "visiblePoints vt q" "- 1" ops] v[of r q]
    by (simp add: iter_def)
  have 2: "\<forall>r \<in> set (citer vt). UserKey (fst r) \<noteq> UserKey (upper vt)"
    using v[of _ None] by (simp add: citer_def)
  have 3: "sp\<lparr>Start := max (UserKey (lower vt)) (Start sp)\<rparr> \<in> set (scanRangeDel vt)"
    if "sp \<in> set (backingRangeDels vt)" "End sp = UserKey (upper vt)"
      "max (UserKey (lower vt)) (Start sp) < End sp" for sp
  proof -
    from truncateSpan_at_end[OF that(2,3)] that(1) show ?thesis
      by (force simp: scanRangeDel_def List.map_filter_def)
  qed
  from 1 2 3 show ?thesis by blast
qed

theorem sentinel_key_never_surfaces_witness:
  "IsExclusiveSentinel (upper sentinelTable)
   \<and> Some (ikey ''d'' 2 InternalKeyKindSet, ''d'') \<in> set (iter sentinelTable None [First, Next, Next, SeekLT ''f''])
   \<and> ''d'' \<noteq> UserKey (upper sentinelTable)
   \<and> (ikey ''e'' 3 InternalKeyKindSet, ''e'') \<in> set (backingPoints sentinelTable)
   \<and> (ikey ''e'' 3 InternalKeyKindSet, ''e'') \<notin> set (citer sentinelTable)
   \<and> \<lparr>Start = ''d'', End = ''e'', Keys = [rkey 4 InternalKeyKindRangeDelete [] []]\<rparr>
       \<in> set (scanRangeDel sentinelTable)"
proof -
  have s: "IsExclusiveSentinel (upper sentinelTable)"
    by (simp add: virtual_eval)
  note t = sentinel_key_never_surfaces[OF s, of None "[First, Next, Next, SeekLT ''f'']"]
  have d: "Some (ikey ''d'' 2 InternalKeyKindSet, ''d'') \<in> set (iter sentinelTable None [First, Next, Next, SeekLT ''f''])"
    by (simp add: sentinel_transcript(1))
  with t have 1: "''d'' \<noteq> UserKey (upper sentinelTable)"
    by (auto simp: ikey_def)
  have u: "UserKey (upper sentinelTable) = ''e''" by (simp add: sentinelTable_def)
  from t have "\<forall>r \<in> set (citer sentinelTable). UserKey (fst r) \<noteq> ''e''"
    unfolding u by blast
  then have 2: "(ikey ''e'' 3 InternalKeyKindSet, ''e'') \<notin> set (citer sentinelTable)"
    by (auto simp: ikey_def)
  have 3: "(ikey ''e'' 3 InternalKeyKindSet, ''e'') \<in> set (backingPoints sentinelTable)"
    by (simp add: sentinelTable_def)
  have 4: "\<lparr>Start = ''d'', End = ''e'', Keys = [rkey 4 InternalKeyKindRangeDelete [] []]\<rparr>
       \<in> set (scanRangeDel sentinelTable)"
    by (simp add: sentinel_transcript(3))
  from s d 1 3 2 4 show ?thesis by blast
qed


end
